theory Spec2Isabelle
  imports Main "HOL-Library.Multiset"
begin

section \<open>IR nodes and the Fusion container\<close>

text \<open>
  Nodes of the IR are heap objects referred to by pointer (\<open>Val*\<close>, \<open>Expr*\<close>).
  A pointer is modelled by an address; the heap gives the object stored there.
  Only the attributes read by the functions verified here are kept.
\<close>

type_synonym val_ptr = nat
type_synonym expr_ptr = nat
type_synonym fusion_ptr = nat

datatype ValType = TensorDomain | IterDomain | TensorView | Scalar | NamedScalar | TensorIndex

datatype DataType = Bool | Float | Half | Int

datatype ExprType = UnaryOp | BinaryOp | TernaryOp | ReductionOp | BroadcastOp

datatype UnaryOpType = Neg | Cast | Exp | RandLike | OtherUnary

datatype IterType = Iteration | Reduction | Broadcast

datatype ParallelType = Serial | BIDx | BIDy | BIDz | TIDx | TIDy | TIDz | Unroll | Vectorize

record IterDomainNode =
  iter_type :: IterType
  parallel_type :: ParallelType

record ValNode =
  val_fusion :: "fusion_ptr option"
  val_name :: nat
  val_type :: ValType
  data_type :: DataType
  root_domain :: "IterDomainNode list"
  domain :: "IterDomainNode list"
  compute_at_view :: "val_ptr option"
  relative_compute_at_axis :: nat

record ExprNode =
  expr_fusion :: "fusion_ptr option"
  expr_name :: nat
  expr_type :: ExprType
  unary_op_type :: UnaryOpType
  inputs :: "val_ptr list"
  outputs :: "val_ptr list"

record Heap =
  val_at :: "val_ptr \<Rightarrow> ValNode"
  expr_at :: "expr_ptr \<Rightarrow> ExprNode"

datatype Statement = SVal val_ptr | SExpr expr_ptr

record Fusion =
  this_ptr :: fusion_ptr
  val_set :: "val_ptr set"
  expr_set :: "expr_ptr set"
  val_deque :: "val_ptr list"
  expr_name_counter :: nat
  origin_map :: "val_ptr \<rightharpoonup> expr_ptr"
  uses_map :: "val_ptr \<rightharpoonup> expr_ptr set"
  fusion_inputs :: "val_ptr list"
  fusion_outputs :: "val_ptr list"

text \<open>Every \<open>TORCH_CHECK\<close> and \<open>TORCH_INTERNAL_ASSERT\<close> that fails is a value.\<close>

datatype error =
    NotInFusion
  | IsFusionInput
  | IsFusionOutput
  | HasOrigin
  | HasBroadcastAxis
  | NotAnOutput
  | NotImplementedYet
  | MultipleOutputs
  | UnexpectedValType
  | WrongFusion

datatype warning = InputHasReduction val_ptr

text \<open>
  \<open>TORCH_WARN_ONCE\<close> keeps a flag per call site: the message is emitted the first
  time the site is reached and never again.
\<close>

record WarnOnce =
  fired :: bool
  emitted :: "warning list"

definition TORCH_WARN_ONCE :: "WarnOnce \<Rightarrow> warning \<Rightarrow> WarnOnce" where
  "TORCH_WARN_ONCE w msg =
     (if fired w then w else \<lparr>fired = True, emitted = emitted w @ [msg]\<rparr>)"

subsection \<open>Queries\<close>

text \<open>\<open>Fusion::inFusion\<close>: the back pointer of the node and the membership in the node set.\<close>

fun inFusion :: "Heap \<Rightarrow> Fusion \<Rightarrow> Statement \<Rightarrow> bool" where
  "inFusion h f (SVal v) = (val_fusion (val_at h v) = Some (this_ptr f) \<and> v \<in> val_set f)"
| "inFusion h f (SExpr e) = (expr_fusion (expr_at h e) = Some (this_ptr f) \<and> e \<in> expr_set f)"

definition assertInFusion :: "Heap \<Rightarrow> Fusion \<Rightarrow> Statement \<Rightarrow> error + unit" where
  "assertInFusion h f stmt = (if inFusion h f stmt then Inr () else Inl NotInFusion)"

text \<open>\<open>Fusion::origin\<close>: the producing expression, \<open>nullptr\<close> is \<open>None\<close>.\<close>

definition origin :: "Heap \<Rightarrow> Fusion \<Rightarrow> val_ptr \<Rightarrow> error + expr_ptr option" where
  "origin h f v = (if inFusion h f (SVal v) then Inr (origin_map f v) else Inl NotInFusion)"

definition unordered_uses :: "Heap \<Rightarrow> Fusion \<Rightarrow> val_ptr \<Rightarrow> error + expr_ptr set" where
  "unordered_uses h f v =
     (if inFusion h f (SVal v)
      then Inr (case uses_map f v of Some s \<Rightarrow> s | None \<Rightarrow> {})
      else Inl NotInFusion)"

definition used :: "Heap \<Rightarrow> Fusion \<Rightarrow> val_ptr \<Rightarrow> error + bool" where
  "used h f v =
     (if inFusion h f (SVal v)
      then Inr (case uses_map f v of Some s \<Rightarrow> s \<noteq> {} | None \<Rightarrow> False)
      else Inl NotInFusion)"

definition hasInput :: "Fusion \<Rightarrow> val_ptr \<Rightarrow> bool" where
  "hasInput f v = (v \<in> set (fusion_inputs f))"


text \<open>
  Modelled from the spec: \<open>TensorView::hasReduction\<close>, \<open>TensorDomain::hasBroadcast\<close>,
  \<open>TensorDomain::noReductions\<close> and \<open>TensorView::hasGridReduction\<close> are defined
  in other files of the repository; an axis has one kind tag among Iteration, Reduction
  and Broadcast, and a reduction over a block index is a grid reduction.
\<close>

definition isReduction :: "IterDomainNode \<Rightarrow> bool" where
  "isReduction a = (iter_type a = Reduction)"

definition isBroadcast :: "IterDomainNode \<Rightarrow> bool" where
  "isBroadcast a = (iter_type a = Broadcast)"

definition isBlockDim :: "IterDomainNode \<Rightarrow> bool" where
  "isBlockDim a = (parallel_type a \<in> {BIDx, BIDy, BIDz})"

definition hasReduction :: "ValNode \<Rightarrow> bool" where
  "hasReduction tv = list_ex isReduction (domain tv)"

definition hasBroadcast :: "IterDomainNode list \<Rightarrow> bool" where
  "hasBroadcast td = list_ex isBroadcast td"

definition noReductions :: "IterDomainNode list \<Rightarrow> IterDomainNode list" where
  "noReductions td = filter (\<lambda>a. \<not> isReduction a) td"

definition hasGridReduction_tv :: "ValNode \<Rightarrow> bool" where
  "hasGridReduction_tv tv = list_ex (\<lambda>a. isReduction a \<and> isBlockDim a) (domain tv)"

text \<open>
  Modelled from the spec: \<open>Val::getOrigin\<close> (defined in another file of the repository)
  asks the Fusion the Val points back to for its origin; for a Val of this Fusion
  that is \<open>Fusion::origin\<close>.
\<close>

definition getOrigin :: "Heap \<Rightarrow> Fusion \<Rightarrow> val_ptr \<Rightarrow> expr_ptr option" where
  "getOrigin h f v = origin_map f v"

subsection \<open>Registering inputs and outputs\<close>

text \<open>
  \<open>Fusion::addInput\<close>. The warning is issued before the origin check, so the state of
  the warning site is returned also when the check fails.
\<close>

definition addInput :: "Heap \<Rightarrow> Fusion \<Rightarrow> WarnOnce \<Rightarrow> val_ptr \<Rightarrow> WarnOnce \<times> (error + Fusion)" where
  "addInput h f w input =
     (if \<not> inFusion h f (SVal input) then (w, Inl NotInFusion)
      else
        let w' = (if val_type (val_at h input) = TensorView \<and> hasReduction (val_at h input)
                  then TORCH_WARN_ONCE w (InputHasReduction input) else w)
        in if getOrigin h f input \<noteq> None then (w', Inl HasOrigin)
           else (w', Inr (f\<lparr>fusion_inputs := fusion_inputs f @ [input]\<rparr>)))"

text \<open>\<open>Fusion::addOutput\<close>. The broadcast test looks at the root domain.\<close>

definition addOutput :: "Heap \<Rightarrow> Fusion \<Rightarrow> val_ptr \<Rightarrow> error + Fusion" where
  "addOutput h f output =
     (if \<not> inFusion h f (SVal output) then Inl NotInFusion
      else if val_type (val_at h output) = TensorView
              \<and> hasBroadcast (root_domain (val_at h output))
      then Inl HasBroadcastAxis
      else Inr (f\<lparr>fusion_outputs := fusion_outputs f @ [output]\<rparr>))"

subsection \<open>Removing and registering nodes\<close>

text \<open>
  \<open>Fusion::removeExpr\<close>: the origin entry of every output that still points to the
  expression is erased, the expression is erased from the uses of its inputs and from
  the expression set. The freed object is not tracked in the heap: the address leaves
  \<open>expr_set\<close>, which every later \<open>inFusion\<close> test consults.
\<close>

definition erase_origin :: "expr_ptr \<Rightarrow> val_ptr \<Rightarrow> (val_ptr \<rightharpoonup> expr_ptr) \<Rightarrow> (val_ptr \<rightharpoonup> expr_ptr)" where
  "erase_origin expr out m = (if m out = Some expr then m(out := None) else m)"

definition erase_use :: "expr_ptr \<Rightarrow> val_ptr \<Rightarrow> (val_ptr \<rightharpoonup> expr_ptr set) \<Rightarrow> (val_ptr \<rightharpoonup> expr_ptr set)" where
  "erase_use expr inp m =
     (case m inp of
        None \<Rightarrow> m
      | Some s \<Rightarrow> if expr \<in> s then m(inp \<mapsto> s - {expr}) else m)"

definition removeExpr :: "Heap \<Rightarrow> Fusion \<Rightarrow> expr_ptr \<Rightarrow> error + Fusion" where
  "removeExpr h f expr =
     (if \<not> inFusion h f (SExpr expr) then Inl NotInFusion
      else Inr (f\<lparr>origin_map := fold (erase_origin expr) (outputs (expr_at h expr)) (origin_map f),
                 uses_map := fold (erase_use expr) (inputs (expr_at h expr)) (uses_map f),
                 expr_set := expr_set f - {expr}\<rparr>))"

fun removeExprs :: "Heap \<Rightarrow> Fusion \<Rightarrow> expr_ptr list \<Rightarrow> error + Fusion" where
  "removeExprs h f [] = Inr f"
| "removeExprs h f (use # rest) =
     (case removeExpr h f use of
        Inl err \<Rightarrow> Inl err
      | Inr f' \<Rightarrow> removeExprs h f' rest)"

text \<open>
  \<open>Fusion::removeVal\<close>. \<open>Val::sameAs\<close> is virtual and defined in other files of
  the repository, so it is a parameter; so is the order in which the copied
  \<open>unordered_set\<close> of uses is iterated.
\<close>

definition removeVal ::
  "(val_ptr \<Rightarrow> val_ptr \<Rightarrow> bool) \<Rightarrow> (expr_ptr set \<Rightarrow> expr_ptr list) \<Rightarrow>
   Heap \<Rightarrow> Fusion \<Rightarrow> val_ptr \<Rightarrow> error + Fusion" where
  "removeVal sameAs iter h f val =
     (if \<not> inFusion h f (SVal val) then Inl NotInFusion
      else if list_ex (sameAs val) (fusion_inputs f) then Inl IsFusionInput
      else if list_ex (sameAs val) (fusion_outputs f) then Inl IsFusionOutput
      else
        case (case origin_map f val of
                None \<Rightarrow> Inr f
              | Some orig \<Rightarrow> removeExpr h f orig) of
          Inl err \<Rightarrow> Inl err
        | Inr f1 \<Rightarrow>
            (case unordered_uses h f1 val of
               Inl err \<Rightarrow> Inl err
             | Inr us \<Rightarrow>
                 (case removeExprs h f1 (iter us) of
                    Inl err \<Rightarrow> Inl err
                  | Inr f2 \<Rightarrow>
                      Inr (f2\<lparr>val_set := val_set f2 - {val},
                              val_deque := remove1 val (val_deque f2)\<rparr>))))"

text \<open>\<open>Fusion::registerExpr\<close>: the loop over the inputs, the loop over the outputs.\<close>

fun registerExpr_inputs :: "Heap \<Rightarrow> Fusion \<Rightarrow> expr_ptr \<Rightarrow> val_ptr list \<Rightarrow> error + Fusion" where
  "registerExpr_inputs h f expr [] = Inr f"
| "registerExpr_inputs h f expr (input # rest) =
     (if \<not> inFusion h f (SVal input) then Inl NotInFusion
      else registerExpr_inputs h
             (f\<lparr>uses_map :=
                  (case uses_map f input of
                     None \<Rightarrow> (uses_map f)(input \<mapsto> {expr})
                   | Some s \<Rightarrow> (uses_map f)(input \<mapsto> insert expr s))\<rparr>)
             expr rest)"

fun registerExpr_outputs :: "Heap \<Rightarrow> Fusion \<Rightarrow> expr_ptr \<Rightarrow> val_ptr list \<Rightarrow> error + Fusion" where
  "registerExpr_outputs h f expr [] = Inr f"
| "registerExpr_outputs h f expr (output # rest) =
     (if \<not> inFusion h f (SVal output) then Inl NotInFusion
      else
        case (case origin_map f output of
                None \<Rightarrow> Inr f
              | Some old \<Rightarrow> removeExpr h f old) of
          Inl err \<Rightarrow> Inl err
        | Inr f' \<Rightarrow>
            registerExpr_outputs h (f'\<lparr>origin_map := (origin_map f')(output \<mapsto> expr)\<rparr>)
              expr rest)"

definition getExprName :: "Fusion \<Rightarrow> nat \<times> Fusion" where
  "getExprName f = (expr_name_counter f, f\<lparr>expr_name_counter := expr_name_counter f + 1\<rparr>)"

definition registerExpr :: "Heap \<Rightarrow> Fusion \<Rightarrow> expr_ptr \<Rightarrow> error + (nat \<times> Fusion)" where
  "registerExpr h f expr =
     (if expr_fusion (expr_at h expr) \<noteq> None
         \<and> expr_fusion (expr_at h expr) \<noteq> Some (this_ptr f) then Inl WrongFusion
      else if expr_fusion (expr_at h expr) \<noteq> None \<and> inFusion h f (SExpr expr)
      then Inr (expr_name (expr_at h expr), f)
      else
        case registerExpr_inputs h f expr (inputs (expr_at h expr)) of
          Inl err \<Rightarrow> Inl err
        | Inr f1 \<Rightarrow>
            (case registerExpr_outputs h f1 expr (outputs (expr_at h expr)) of
               Inl err \<Rightarrow> Inl err
             | Inr f2 \<Rightarrow> Inr (getExprName (f2\<lparr>expr_set := insert expr (expr_set f2)\<rparr>))))"

section \<open>The traversal engine\<close>

subsection \<open>\<open>IterVisitor::next\<close>\<close>

text \<open>
  The key of the stable sort in \<open>IterVisitor::next(Expr*, bool)\<close>: the relative
  compute-at axis of an input TensorView that is computed at the output, \<open>-1\<close> for any
  other input. The comparison of the source is \<open>key stmt0 < key stmt1\<close>, and
  \<open>std::stable_sort\<close> keeps the order of inputs with equal keys: the result is the
  one of \<open>sort_key\<close>.
\<close>

definition computed_at :: "Heap \<Rightarrow> val_ptr \<Rightarrow> val_ptr \<Rightarrow> bool" where
  "computed_at h out inp \<longleftrightarrow>
     val_type (val_at h inp) = TensorView \<and> compute_at_view (val_at h inp) = Some out"

definition compute_at_key :: "Heap \<Rightarrow> val_ptr \<Rightarrow> val_ptr \<Rightarrow> int" where
  "compute_at_key h out inp =
     (if computed_at h out inp then int (relative_compute_at_axis (val_at h inp)) else - 1)"

definition next_val :: "Heap \<Rightarrow> Fusion \<Rightarrow> val_ptr \<Rightarrow> error + Statement list" where
  "next_val h f v =
     (case origin h f v of
        Inl err \<Rightarrow> Inl err
      | Inr None \<Rightarrow> Inr []
      | Inr (Some e) \<Rightarrow> Inr [SExpr e])"

definition next_expr :: "Heap \<Rightarrow> Fusion \<Rightarrow> expr_ptr \<Rightarrow> bool \<Rightarrow> error + Statement list" where
  "next_expr h f expr respect_compute_at =
     (if \<not> inFusion h f (SExpr expr) then Inl NotInFusion
      else if respect_compute_at then
        (case outputs (expr_at h expr) of
           [out] \<Rightarrow>
             if val_type (val_at h out) = TensorView
             then Inr (map SVal (sort_key (compute_at_key h out) (inputs (expr_at h expr))))
             else Inr (map SVal (inputs (expr_at h expr)))
         | _ \<Rightarrow> Inl MultipleOutputs)
      else Inr (map SVal (inputs (expr_at h expr))))"

fun next_stmts :: "Heap \<Rightarrow> Fusion \<Rightarrow> bool \<Rightarrow> Statement \<Rightarrow> error + Statement list" where
  "next_stmts h f respect_compute_at (SVal v) = next_val h f v"
| "next_stmts h f respect_compute_at (SExpr e) = next_expr h f e respect_compute_at"

definition remove_visited :: "Statement list \<Rightarrow> Statement set \<Rightarrow> Statement list" where
  "remove_visited stmts visited = filter (\<lambda>s. s \<notin> visited) stmts"

subsection \<open>\<open>IterVisitor::traverseFrom\<close>\<close>

text \<open>
  The state of the loop. A frame of \<open>stmt_stack\<close> is built from the reversed list of
  statements and consumed from its back, so a frame is kept here as the list in visiting
  order: the head of a frame is \<open>back()\<close>, and the head of \<open>stmt_stack\<close> is the top
  frame. \<open>handled\<close> is the sequence of the calls of \<open>handle\<close>.
\<close>

record trav =
  stmt_stack :: "Statement list list"
  visited :: "Statement set"
  all_inputs_visited :: bool
  handled :: "Statement list"

definition traverse_step :: "Heap \<Rightarrow> Fusion \<Rightarrow> bool \<Rightarrow> bool \<Rightarrow> trav \<Rightarrow> error + trav" where
  "traverse_step h f traverseAllPaths respectComputeAt s =
     (case stmt_stack s of
        [] \<Rightarrow> Inr s
      | current_inputs # below \<Rightarrow>
          (case current_inputs of
             [] \<Rightarrow> Inr (s\<lparr>stmt_stack := below, all_inputs_visited := True\<rparr>)
           | stmt # others \<Rightarrow>
               if all_inputs_visited s then
                 Inr (s\<lparr>stmt_stack := others # below,
                        visited := insert stmt (visited s),
                        all_inputs_visited := False,
                        handled := handled s @ [stmt]\<rparr>)
               else
                 (case next_stmts h f respectComputeAt stmt of
                    Inl err \<Rightarrow> Inl err
                  | Inr ns \<Rightarrow>
                      let ns' = (if traverseAllPaths then ns
                                 else remove_visited ns (visited s))
                      in if ns' = [] then Inr (s\<lparr>all_inputs_visited := True\<rparr>)
                         else Inr (s\<lparr>stmt_stack := ns' # stmt_stack s,
                                     all_inputs_visited := False\<rparr>))))"

text \<open>
  The \<open>while\<close> loop, with fuel: \<open>None\<close> is a loop that has not come to an end within
  the given number of iterations.
\<close>

fun traverse_loop ::
  "nat \<Rightarrow> Heap \<Rightarrow> Fusion \<Rightarrow> bool \<Rightarrow> bool \<Rightarrow> trav \<Rightarrow> (error + trav) option" where
  "traverse_loop 0 h f ap rca s = (if stmt_stack s = [] then Some (Inr s) else None)"
| "traverse_loop (Suc n) h f ap rca s =
     (if stmt_stack s = [] then Some (Inr s)
      else case traverse_step h f ap rca s of
             Inl err \<Rightarrow> Some (Inl err)
           | Inr s' \<Rightarrow> traverse_loop n h f ap rca s')"

definition init_trav :: "val_ptr list \<Rightarrow> trav" where
  "init_trav from = \<lparr>stmt_stack = [map SVal from], visited = {},
                     all_inputs_visited = False, handled = []\<rparr>"

definition traverseFrom ::
  "nat \<Rightarrow> Heap \<Rightarrow> Fusion \<Rightarrow> val_ptr list \<Rightarrow> bool \<Rightarrow> bool \<Rightarrow> (error + Statement list) option" where
  "traverseFrom n h fusion from traverseAllPaths respectComputeAt =
     map_option (map_sum id handled)
       (traverse_loop n h fusion traverseAllPaths respectComputeAt (init_trav from))"

subsection \<open>The visitors built on the traversal\<close>

text \<open>\<open>ExprSort::handle\<close> and \<open>Exprs::handle\<close> record the expressions.\<close>

fun exprs_of :: "Statement list \<Rightarrow> expr_ptr list" where
  "exprs_of [] = []"
| "exprs_of (SExpr e # rest) = e # exprs_of rest"
| "exprs_of (SVal v # rest) = exprs_of rest"

text \<open>
  \<open>Exprs::getExprs\<close>; the call leaves the last parameter of \<open>traverseFrom\<close> to its
  default, which is declared in a header of the repository and taken to be \<open>false\<close>.
\<close>

definition Exprs_getExprs ::
  "nat \<Rightarrow> Heap \<Rightarrow> Fusion \<Rightarrow> val_ptr list \<Rightarrow> (error + expr_ptr list) option" where
  "Exprs_getExprs n h fusion from =
     map_option (map_sum id exprs_of) (traverseFrom n h fusion from False False)"

definition getTerminatingOutputs :: "nat \<Rightarrow> Heap \<Rightarrow> Fusion \<Rightarrow> (error + val_ptr set) option" where
  "getTerminatingOutputs n h fusion =
     map_option
       (map_sum id
          (\<lambda>exprs. let used_vals = (\<Union>expr \<in> set exprs. set (inputs (expr_at h expr)))
                    in {out \<in> set (fusion_outputs fusion). out \<notin> used_vals}))
       (Exprs_getExprs n h fusion (fusion_outputs fusion))"

text \<open>The leaves of \<open>traverse_\<close>: the Vals of the value sequence without uses.\<close>

fun leaves_of :: "Heap \<Rightarrow> Fusion \<Rightarrow> val_ptr list \<Rightarrow> error + val_ptr list" where
  "leaves_of h f [] = Inr []"
| "leaves_of h f (val # rest) =
     (case used h f val of
        Inl err \<Rightarrow> Inl err
      | Inr u \<Rightarrow>
          (case leaves_of h f rest of
             Inl err \<Rightarrow> Inl err
           | Inr ls \<Rightarrow> Inr (if u then ls else val # ls)))"

text \<open>
  \<open>IterVisitor::traverse_\<close> (here \<open>traverse_impl\<close>). The terminating outputs come as an \<open>unordered_set\<close>; the
  order in which it is copied into the vector is the parameter \<open>iter\<close>.
\<close>

definition traverse_impl ::
  "nat \<Rightarrow> (val_ptr set \<Rightarrow> val_ptr list) \<Rightarrow> Heap \<Rightarrow> Fusion \<Rightarrow> bool \<Rightarrow> bool \<Rightarrow> bool \<Rightarrow> bool \<Rightarrow>
   (error + Statement list) option" where
  "traverse_impl n iter h fusion from_outputs_only breadth_first traverse_all_paths respect_compute_at =
     (if breadth_first then Some (Inl NotImplementedYet)
      else if from_outputs_only then
        (case getTerminatingOutputs n h fusion of
           None \<Rightarrow> None
         | Some (Inl err) \<Rightarrow> Some (Inl err)
         | Some (Inr term_outs) \<Rightarrow>
             let term_val_outs = iter term_outs
             in if term_val_outs \<noteq> []
                then traverseFrom n h fusion term_val_outs traverse_all_paths respect_compute_at
                else Some (Inr []))
      else
        (case leaves_of h fusion (val_deque fusion) of
           Inl err \<Rightarrow> Some (Inl err)
         | Inr leaves \<Rightarrow>
             if leaves \<noteq> []
             then traverseFrom n h fusion leaves traverse_all_paths respect_compute_at
             else Some (Inr [])))"

definition traverse ::
  "nat \<Rightarrow> (val_ptr set \<Rightarrow> val_ptr list) \<Rightarrow> Heap \<Rightarrow> Fusion \<Rightarrow> bool \<Rightarrow> bool \<Rightarrow> bool \<Rightarrow>
   (error + Statement list) option" where
  "traverse n iter h fusion from_outputs_only breadth_first respect_compute_at =
     traverse_impl n iter h fusion from_outputs_only breadth_first False respect_compute_at"

definition ExprSort_getExprs ::
  "nat \<Rightarrow> (val_ptr set \<Rightarrow> val_ptr list) \<Rightarrow> Heap \<Rightarrow> Fusion \<Rightarrow> bool \<Rightarrow> bool \<Rightarrow> bool \<Rightarrow>
   (error + expr_ptr list) option" where
  "ExprSort_getExprs n iter h fusion from_outputs_only breadth_first respect_compute_at =
     map_option (map_sum id exprs_of)
       (traverse n iter h fusion from_outputs_only breadth_first respect_compute_at)"

text \<open>\<open>Fusion::exprs\<close>.\<close>

definition exprs ::
  "nat \<Rightarrow> (val_ptr set \<Rightarrow> val_ptr list) \<Rightarrow> Heap \<Rightarrow> Fusion \<Rightarrow> bool \<Rightarrow> bool \<Rightarrow> bool \<Rightarrow>
   (error + expr_ptr list) option" where
  "exprs n iter h fusion from_outputs_only breadth_first respect_compute_at =
     (if breadth_first then Some (Inl NotImplementedYet)
      else ExprSort_getExprs n iter h fusion from_outputs_only breadth_first respect_compute_at)"




section \<open>The kernel header\<close>

text \<open>
  The scans of \<open>Fusion::hasRNG\<close>, \<open>hasGridReduction\<close> and \<open>hasBlockReduction\<close> over
  \<open>exprs(true)\<close>.
\<close>

text \<open>
  Modelled from the spec: \<open>TensorView::hasBlockReduction\<close> is defined in another file
  of the repository; a reduction axis bound to a thread index is a block reduction.
\<close>

definition isThreadDim :: "IterDomainNode \<Rightarrow> bool" where
  "isThreadDim a = (parallel_type a \<in> {TIDx, TIDy, TIDz})"

definition hasBlockReduction_tv :: "ValNode \<Rightarrow> bool" where
  "hasBlockReduction_tv tv = list_ex (\<lambda>a. isReduction a \<and> isThreadDim a) (domain tv)"

definition is_rand_like :: "Heap \<Rightarrow> expr_ptr \<Rightarrow> bool" where
  "is_rand_like h expr \<longleftrightarrow>
     expr_type (expr_at h expr) = UnaryOp \<and> unary_op_type (expr_at h expr) = RandLike"

definition has_grid_output :: "Heap \<Rightarrow> expr_ptr \<Rightarrow> bool" where
  "has_grid_output h expr \<longleftrightarrow>
     list_ex (\<lambda>out. val_type (val_at h out) = TensorView \<and> hasGridReduction_tv (val_at h out))
       (outputs (expr_at h expr))"

definition has_block_output :: "Heap \<Rightarrow> expr_ptr \<Rightarrow> bool" where
  "has_block_output h expr \<longleftrightarrow>
     list_ex (\<lambda>out. val_type (val_at h out) = TensorView \<and> hasBlockReduction_tv (val_at h out))
       (outputs (expr_at h expr))"

definition hasRNG ::
  "nat \<Rightarrow> (val_ptr set \<Rightarrow> val_ptr list) \<Rightarrow> Heap \<Rightarrow> Fusion \<Rightarrow> (error + bool) option" where
  "hasRNG n iter h f =
     map_option (map_sum id (list_ex (is_rand_like h))) (exprs n iter h f True False False)"

definition hasGridReduction ::
  "nat \<Rightarrow> (val_ptr set \<Rightarrow> val_ptr list) \<Rightarrow> Heap \<Rightarrow> Fusion \<Rightarrow> (error + bool) option" where
  "hasGridReduction n iter h f =
     map_option (map_sum id (list_ex (has_grid_output h))) (exprs n iter h f True False False)"

definition hasBlockReduction ::
  "nat \<Rightarrow> (val_ptr set \<Rightarrow> val_ptr list) \<Rightarrow> Heap \<Rightarrow> Fusion \<Rightarrow> (error + bool) option" where
  "hasBlockReduction n iter h f =
     map_option (map_sum id (list_ex (has_block_output h))) (exprs n iter h f True False False)"

text \<open>
  The stream operators for data types, numbers and scalar values and the indentation of
  the printer are defined in other files of the repository; they are parameters.
\<close>

record Printer =
  show_dtype :: "DataType \<Rightarrow> string"
  show_num :: "nat \<Rightarrow> string"
  show_val :: "val_ptr \<Rightarrow> string"
  indent :: string

text \<open>
  What one iteration of the loop over the parameters of \<open>IRPrinter::printHeader\<close> writes:
  the declaration, and the separator unless the Val is the pointer at the back of the
  vector.
\<close>

definition param_decl :: "Printer \<Rightarrow> Heap \<Rightarrow> val_ptr \<Rightarrow> val_ptr \<Rightarrow> error + string" where
  "param_decl pr h back val =
     (case val_type (val_at h val) of
        TensorView \<Rightarrow>
          Inr (''Tensor<'' @ show_dtype pr (data_type (val_at h val)) @ '', ''
               @ show_num pr (length (noReductions (root_domain (val_at h val))))
               @ ''> T'' @ show_num pr (val_name (val_at h val))
               @ (if val \<noteq> back then '', '' else ''''))
      | Scalar \<Rightarrow>
          Inr (show_dtype pr (data_type (val_at h val)) @ '' '' @ show_val pr val
               @ (if val \<noteq> back then '', '' else ''''))
      | _ \<Rightarrow> Inl UnexpectedValType)"

fun print_params :: "Printer \<Rightarrow> Heap \<Rightarrow> val_ptr \<Rightarrow> val_ptr list \<Rightarrow> string \<Rightarrow> error + string" where
  "print_params pr h back [] os = Inr os"
| "print_params pr h back (val # rest) os =
     (case param_decl pr h back val of
        Inl err \<Rightarrow> Inl err
      | Inr d \<Rightarrow> print_params pr h back rest (os @ d))"

text \<open>
  \<open>IRPrinter::printHeader\<close>. The scans are pure, so the second calls of \<open>hasRNG\<close> and
  \<open>hasGridReduction\<close> give the results of the first ones.
\<close>

definition printHeader ::
  "nat \<Rightarrow> (val_ptr set \<Rightarrow> val_ptr list) \<Rightarrow> Printer \<Rightarrow> Heap \<Rightarrow> Fusion \<Rightarrow> string \<Rightarrow>
   (error + string) option" where
  "printHeader n iter pr h fusion kernel_name =
     (let os0 = ''__global__ void '' @ kernel_name @ ''('';
          vals = fold (\<lambda>val vs. vs @ [val]) (fusion_outputs fusion)
                   (fold (\<lambda>val vs. vs @ [val]) (fusion_inputs fusion) [])
      in case print_params pr h (last vals) vals os0 of
           Inl err \<Rightarrow> Some (Inl err)
         | Inr os1 \<Rightarrow>
             (case hasRNG n iter h fusion of
                None \<Rightarrow> None
              | Some (Inl err) \<Rightarrow> Some (Inl err)
              | Some (Inr rng) \<Rightarrow>
                  (case hasGridReduction n iter h fusion of
                     None \<Rightarrow> None
                   | Some (Inl err) \<Rightarrow> Some (Inl err)
                   | Some (Inr grid) \<Rightarrow>
                       (case hasBlockReduction n iter h fusion of
                          None \<Rightarrow> None
                        | Some (Inl err) \<Rightarrow> Some (Inl err)
                        | Some (Inr block) \<Rightarrow>
                            Some (Inr
                              (os1
                               @ (if rng
                                  then '', unsigned long long seed, unsigned long long offset''
                                  else '''')
                               @ (if grid
                                  then '', void* work_buf, unsigned* sync_flags''
                                  else '''')
                               @ ''){'' @ [CHR 0x0A]
                               @ (if rng
                                  then indent pr
                                       @ ''int idx = blockIdx.x*blockDim.x + threadIdx.x;''
                                       @ [CHR 0x0A] @ indent pr
                                       @ ''Philox rnd(seed, idx, offset);'' @ [CHR 0x0A]
                                  else '''')
                               @ (if block \<or> grid
                                  then indent pr @ ''__shared__ float shared_mem[1024];''
                                       @ [CHR 0x0A]
                                  else '''')))))))"

section \<open>Copying a Fusion\<close>

text \<open>
  Modelled from the spec: \<open>IrCloner\<close> and the cloning constructors of the nodes are
  defined in other files of the repository. The spec describes a node-identity remapping
  table that makes the internal pointers of the clone refer to clone-local nodes. The
  table is given here with its inverse on Vals; \<open>ir_cloner.clone(p)\<close> is the entry of
  \<open>p\<close>. The clone of a node has the attributes of the node, with every pointer sent
  through the table and the back pointer set to the new Fusion.
\<close>

record IrCloner =
  cloner_fusion :: fusion_ptr
  clone_val :: "val_ptr \<Rightarrow> val_ptr"
  clone_expr :: "expr_ptr \<Rightarrow> expr_ptr"
  unclone_val :: "val_ptr \<rightharpoonup> val_ptr"

definition clone_ValNode :: "IrCloner \<Rightarrow> ValNode \<Rightarrow> ValNode" where
  "clone_ValNode c n =
     n\<lparr>val_fusion := Some (cloner_fusion c),
       compute_at_view := map_option (clone_val c) (compute_at_view n)\<rparr>"

definition clone_ExprNode :: "IrCloner \<Rightarrow> ExprNode \<Rightarrow> ExprNode" where
  "clone_ExprNode c n =
     n\<lparr>expr_fusion := Some (cloner_fusion c),
       inputs := map (clone_val c) (inputs n),
       outputs := map (clone_val c) (outputs n)\<rparr>"

fun clone_stmt :: "IrCloner \<Rightarrow> Statement \<Rightarrow> Statement" where
  "clone_stmt c (SVal v) = SVal (clone_val c v)"
| "clone_stmt c (SExpr e) = SExpr (clone_expr c e)"

text \<open>
  The copy constructor \<open>Fusion::Fusion(const Fusion&)\<close>: every container of the other
  Fusion is rebuilt from the clones of its elements. A map filled with the pairs
  \<open>{clone k, clone v}\<close> gives, at a pointer, the clone of the entry of the Val whose
  clone the pointer is. (The map of lowered values is not part of the model.)
\<close>

definition Fusion_copy :: "IrCloner \<Rightarrow> Fusion \<Rightarrow> Fusion" where
  "Fusion_copy ir_cloner other =
     \<lparr>this_ptr = cloner_fusion ir_cloner,
      val_set = clone_val ir_cloner ` val_set other,
      expr_set = clone_expr ir_cloner ` expr_set other,
      val_deque = map (clone_val ir_cloner) (val_deque other),
      expr_name_counter = expr_name_counter other,
      origin_map = (\<lambda>p. case unclone_val ir_cloner p of
                            None \<Rightarrow> None
                          | Some k \<Rightarrow> map_option (clone_expr ir_cloner) (origin_map other k)),
      uses_map = (\<lambda>p. case unclone_val ir_cloner p of
                          None \<Rightarrow> None
                        | Some k \<Rightarrow> map_option (\<lambda>s. clone_expr ir_cloner ` s) (uses_map other k)),
      fusion_inputs = map (clone_val ir_cloner) (fusion_inputs other),
      fusion_outputs = map (clone_val ir_cloner) (fusion_outputs other)\<rparr>"

text \<open>
  \<open>operator<<(std::ostream&, Fusion*)\<close> makes the Fusion the active one and calls
  \<open>IRPrinter::handle(Fusion*)\<close>, which prints the expressions of \<open>exprs()\<close> one after
  the other; the math and the transform printer go through the same loop with their own
  handlers. The printing of one expression dispatches to the handlers of the node
  classes, most of them defined in other files of the repository: it is a parameter,
  given the heap, the active Fusion and the expression. A handler that raises ends the
  printing.
\<close>

fun handle_exprs :: "(expr_ptr \<Rightarrow> error + string) \<Rightarrow> expr_ptr list \<Rightarrow> error + string" where
  "handle_exprs handle_expr [] = Inr []"
| "handle_exprs handle_expr (expr # rest) =
     (case handle_expr expr of
        Inl err \<Rightarrow> Inl err
      | Inr text \<Rightarrow>
          (case handle_exprs handle_expr rest of
             Inl err \<Rightarrow> Inl err
           | Inr more_text \<Rightarrow> Inr (text @ more_text)))"

definition print_fusion ::
  "nat \<Rightarrow> (val_ptr set \<Rightarrow> val_ptr list) \<Rightarrow> (Heap \<Rightarrow> Fusion \<Rightarrow> expr_ptr \<Rightarrow> error + string) \<Rightarrow>
   Heap \<Rightarrow> Fusion \<Rightarrow> (error + string) option" where
  "print_fusion n iter handle_expr h fusion =
     (case exprs n iter h fusion False False False of
        None \<Rightarrow> None
      | Some (Inl err) \<Rightarrow> Some (Inl err)
      | Some (Inr es) \<Rightarrow> Some (handle_exprs (handle_expr h fusion) es))"

subsection \<open>Auxiliary notions for the statements\<close>

definition uses_of :: "Fusion \<Rightarrow> val_ptr \<Rightarrow> expr_ptr set" where
  "uses_of f v = (case uses_map f v of None \<Rightarrow> {} | Some s \<Rightarrow> s)"

definition expr_removed :: "Heap \<Rightarrow> Fusion \<Rightarrow> expr_ptr \<Rightarrow> bool" where
  "expr_removed h f old \<longleftrightarrow>
     old \<notin> expr_set f \<and>
     (\<forall>w \<in> set (outputs (expr_at h old)). origin_map f w \<noteq> Some old) \<and>
     (\<forall>i \<in> set (inputs (expr_at h old)). old \<notin> uses_of f i)"

text \<open>One iteration of the loop over the outputs.\<close>

definition install_origin :: "Heap \<Rightarrow> Fusion \<Rightarrow> expr_ptr \<Rightarrow> val_ptr \<Rightarrow> error + Fusion" where
  "install_origin h f e out =
     (case (case origin_map f out of None \<Rightarrow> Inr f | Some old \<Rightarrow> removeExpr h f old) of
        Inl err \<Rightarrow> Inl err
      | Inr f' \<Rightarrow> Inr (f'\<lparr>origin_map := (origin_map f')(out \<mapsto> e)\<rparr>))"


text \<open>The graph the traversal walks: from a Val to its origin, from an expression to its inputs.\<close>

fun edge :: "Heap \<Rightarrow> Fusion \<Rightarrow> Statement \<Rightarrow> Statement \<Rightarrow> bool" where
  "edge h f (SVal v) t = (\<exists>e. origin_map f v = Some e \<and> t = SExpr e)"
| "edge h f (SExpr e) t = (\<exists>v \<in> set (inputs (expr_at h e)). t = SVal v)"

definition reachable :: "Heap \<Rightarrow> Fusion \<Rightarrow> val_ptr list \<Rightarrow> Statement set" where
  "reachable h f from = {(s, t). edge h f s t}\<^sup>* `` (SVal ` set from)"

text \<open>Each statement of a sequence comes after all its successors in the graph.\<close>

definition closed_order :: "Heap \<Rightarrow> Fusion \<Rightarrow> Statement list \<Rightarrow> bool" where
  "closed_order h f tr \<longleftrightarrow>
     (\<forall>i < length tr. \<forall>t. edge h f (tr ! i) t \<longrightarrow> t \<in> set (take i tr))"

text \<open>
  The frames of the stack: below the top frame no frame is empty, the statements of a
  frame are successors of the head of the frame below, and the successors of that head
  are visited or still in the frame.
\<close>

fun stack_ok :: "Heap \<Rightarrow> Fusion \<Rightarrow> Statement set \<Rightarrow> Statement list list \<Rightarrow> bool" where
  "stack_ok h f V [] = True"
| "stack_ok h f V [F] = True"
| "stack_ok h f V (F # G # rest) =
     (G \<noteq> [] \<and> (\<forall>t. edge h f (hd G) t \<longrightarrow> t \<in> V \<union> set F) \<and>
      (\<forall>t \<in> set F. edge h f (hd G) t) \<and> stack_ok h f V (G # rest))"

definition trav_inv :: "Heap \<Rightarrow> Fusion \<Rightarrow> val_ptr list \<Rightarrow> trav \<Rightarrow> bool" where
  "trav_inv h f from s \<longleftrightarrow>
     visited s = set (handled s) \<and>
     closed_order h f (handled s) \<and>
     stack_ok h f (visited s) (stmt_stack s) \<and>
     (all_inputs_visited s \<longrightarrow>
        (\<forall>x others below. stmt_stack s = (x # others) # below \<longrightarrow>
           (\<forall>t. edge h f x t \<longrightarrow> t \<in> visited s))) \<and>
     (\<forall>F \<in> set (stmt_stack s). set F \<subseteq> reachable h f from) \<and>
     set (handled s) \<subseteq> reachable h f from \<and>
     SVal ` set from \<subseteq> visited s \<union> (if stmt_stack s = [] then {} else set (last (stmt_stack s)))"


text \<open>The successors of a statement as a list, and a bound on the work below a statement.\<close>

fun succs :: "Heap \<Rightarrow> Fusion \<Rightarrow> Statement \<Rightarrow> Statement list" where
  "succs h f (SVal v) = (case origin_map f v of None \<Rightarrow> [] | Some e \<Rightarrow> [SExpr e])"
| "succs h f (SExpr e) = map SVal (inputs (expr_at h e))"

fun cost :: "Heap \<Rightarrow> Fusion \<Rightarrow> nat \<Rightarrow> Statement \<Rightarrow> nat" where
  "cost h f 0 s = 3"
| "cost h f (Suc k) s = 3 + sum_list (map (cost h f k) (succs h f s))"

text \<open>Acyclicity of the registered part of the graph, given by a ranking.\<close>

definition ranked :: "Heap \<Rightarrow> Fusion \<Rightarrow> (Statement \<Rightarrow> nat) \<Rightarrow> bool" where
  "ranked h f rk \<longleftrightarrow> (\<forall>s t. inFusion h f s \<and> edge h f s t \<longrightarrow> rk t < rk s)"

definition work :: "Heap \<Rightarrow> Fusion \<Rightarrow> (Statement \<Rightarrow> nat) \<Rightarrow> Statement \<Rightarrow> nat" where
  "work h f rk s = cost h f (rk s) s"

definition frame_cost :: "Heap \<Rightarrow> Fusion \<Rightarrow> (Statement \<Rightarrow> nat) \<Rightarrow> bool \<Rightarrow> Statement list \<Rightarrow> nat" where
  "frame_cost h f rk flag F =
     (if flag then (case F of [] \<Rightarrow> 1 | x # others \<Rightarrow> 2 + sum_list (map (work h f rk) others))
      else sum_list (map (work h f rk) F) + 1)"

definition trav_measure :: "Heap \<Rightarrow> Fusion \<Rightarrow> (Statement \<Rightarrow> nat) \<Rightarrow> trav \<Rightarrow> nat" where
  "trav_measure h f rk s =
     (case stmt_stack s of
        [] \<Rightarrow> 0
      | F # below \<Rightarrow> frame_cost h f rk (all_inputs_visited s) F
                      + sum_list (map (frame_cost h f rk True) below))"

text \<open>
  The registered part of the graph is closed: the origin of a Val is a registered
  expression and the inputs of a registered expression are registered Vals.
\<close>

definition closed_fusion :: "Heap \<Rightarrow> Fusion \<Rightarrow> bool" where
  "closed_fusion h f \<longleftrightarrow>
     (\<forall>v e. origin_map f v = Some e \<longrightarrow> inFusion h f (SExpr e)) \<and>
     (\<forall>e. inFusion h f (SExpr e) \<longrightarrow> (\<forall>v \<in> set (inputs (expr_at h e)). inFusion h f (SVal v)))"

definition single_outputs :: "Heap \<Rightarrow> Fusion \<Rightarrow> bool" where
  "single_outputs h f \<longleftrightarrow> (\<forall>e. inFusion h f (SExpr e) \<longrightarrow> length (outputs (expr_at h e)) = 1)"

text \<open>The position of the first occurrence ranks the statements of a closed sequence.\<close>

fun first_pos :: "'a \<Rightarrow> 'a list \<Rightarrow> nat" where
  "first_pos x [] = 0"
| "first_pos x (y # ys) = (if y = x then 0 else Suc (first_pos x ys))"

text \<open>
  Without \<open>traverseAllPaths\<close>: the expressions handled so far are pairwise different,
  and an expression on the stack is alone in its frame and not visited.
\<close>

definition exprs_once :: "trav \<Rightarrow> bool" where
  "exprs_once s \<longleftrightarrow>
     distinct (exprs_of (handled s)) \<and>
     (\<forall>F \<in> set (stmt_stack s). \<forall>e. SExpr e \<in> set F \<longrightarrow> F = [SExpr e] \<and> SExpr e \<notin> visited s)"

section \<open>Notions for the copy of a Fusion\<close>

text \<open>
  The table is one-to-one and comes with its inverse; the registered nodes of a Fusion
  point back to it; the heap holds, at the clone of each registered node, the clone of
  the node.
\<close>

definition cloner_ok :: "IrCloner \<Rightarrow> bool" where
  "cloner_ok c \<longleftrightarrow>
     inj (clone_val c) \<and> inj (clone_expr c) \<and>
     (\<forall>v. unclone_val c (clone_val c v) = Some v) \<and>
     (\<forall>p v. unclone_val c p = Some v \<longrightarrow> clone_val c v = p)"

definition back_pointers_ok :: "Heap \<Rightarrow> Fusion \<Rightarrow> bool" where
  "back_pointers_ok h f \<longleftrightarrow>
     (\<forall>v \<in> val_set f. val_fusion (val_at h v) = Some (this_ptr f)) \<and>
     (\<forall>e \<in> expr_set f. expr_fusion (expr_at h e) = Some (this_ptr f))"

definition cloned_nodes :: "IrCloner \<Rightarrow> Fusion \<Rightarrow> Heap \<Rightarrow> bool" where
  "cloned_nodes c f h \<longleftrightarrow>
     (\<forall>v \<in> val_set f. val_at h (clone_val c v) = clone_ValNode c (val_at h v)) \<and>
     (\<forall>e \<in> expr_set f. expr_at h (clone_expr c e) = clone_ExprNode c (expr_at h e))"

text \<open>The state of a traversal, sent through the table.\<close>

definition clone_trav :: "IrCloner \<Rightarrow> trav \<Rightarrow> trav" where
  "clone_trav c s =
     \<lparr>stmt_stack = map (map (clone_stmt c)) (stmt_stack s),
      visited = clone_stmt c ` visited s,
      all_inputs_visited = all_inputs_visited s,
      handled = map (clone_stmt c) (handled s)\<rparr>"

text \<open>
  The pointers held by a Fusion: the elements of its containers and the pointers stored
  in its registered nodes.
\<close>

definition fusion_pointers :: "Heap \<Rightarrow> Fusion \<Rightarrow> Statement set" where
  "fusion_pointers h f =
     SVal ` (val_set f \<union> set (val_deque f) \<union> set (fusion_inputs f) \<union> set (fusion_outputs f) \<union>
             dom (origin_map f) \<union> dom (uses_map f)) \<union>
     SExpr ` (expr_set f \<union> ran (origin_map f) \<union> \<Union>(ran (uses_map f))) \<union>
     SVal ` (\<Union>e \<in> expr_set f. set (inputs (expr_at h e)) \<union> set (outputs (expr_at h e))) \<union>
     SVal ` {w. \<exists>v \<in> val_set f. compute_at_view (val_at h v) = Some w}"

definition fusion_nodes :: "Fusion \<Rightarrow> Statement set" where
  "fusion_nodes f = SVal ` val_set f \<union> SExpr ` expr_set f"

text \<open>Two heaps hold the same registered nodes of a Fusion.\<close>

definition same_nodes :: "Fusion \<Rightarrow> Heap \<Rightarrow> Heap \<Rightarrow> bool" where
  "same_nodes f h1 h2 \<longleftrightarrow>
     (\<forall>v \<in> val_set f. val_at h1 v = val_at h2 v) \<and>
     (\<forall>e \<in> expr_set f. expr_at h1 e = expr_at h2 e)"

text \<open>
  What is handled, the heads of the frames below the top one, and the head of the top
  frame once its inputs are visited, are registered.
\<close>

definition handled_in :: "Heap \<Rightarrow> Fusion \<Rightarrow> trav \<Rightarrow> bool" where
  "handled_in h f s \<longleftrightarrow>
     (\<forall>x \<in> set (handled s). inFusion h f x) \<and>
     (\<forall>F \<in> set (tl (stmt_stack s)). F \<noteq> [] \<and> inFusion h f (hd F)) \<and>
     (all_inputs_visited s \<longrightarrow>
        (\<forall>x others below. stmt_stack s = (x # others) # below \<longrightarrow> inFusion h f x))"

section \<open>Example heap and fusions\<close>

definition scalar_node :: "nat \<Rightarrow> ValNode" where
  "scalar_node n = \<lparr>val_fusion = Some 0, val_name = n, val_type = Scalar, data_type = Float,
     root_domain = [], domain = [], compute_at_view = None, relative_compute_at_axis = 0\<rparr>"

definition tv_node :: "nat \<Rightarrow> IterType list \<Rightarrow> val_ptr option \<Rightarrow> nat \<Rightarrow> ValNode" where
  "tv_node n ks cav ax = \<lparr>val_fusion = Some 0, val_name = n, val_type = TensorView,
     data_type = Float,
     root_domain = map (\<lambda>k. \<lparr>iter_type = k, parallel_type = Serial\<rparr>) ks,
     domain = map (\<lambda>k. \<lparr>iter_type = k, parallel_type = Serial\<rparr>) ks,
     compute_at_view = cav, relative_compute_at_axis = ax\<rparr>"

definition expr_node :: "ExprType \<Rightarrow> UnaryOpType \<Rightarrow> val_ptr list \<Rightarrow> val_ptr list \<Rightarrow> ExprNode" where
  "expr_node t u ins outs = \<lparr>expr_fusion = Some 0, expr_name = 0, expr_type = t, unary_op_type = u,
     inputs = ins, outputs = outs\<rparr>"

definition empty_fusion :: Fusion where
  "empty_fusion = \<lparr>this_ptr = 0, val_set = {}, expr_set = {}, val_deque = [],
     expr_name_counter = 0, origin_map = Map.empty, uses_map = Map.empty,
     fusion_inputs = [], fusion_outputs = []\<rparr>"

text \<open>
  A heap with three tensor views: 0 is plain, 1 has a reduction axis, 2 has a broadcast
  axis; every expression address holds a binary operation from 0 to 1.
\<close>

definition heap_io :: Heap where
  "heap_io = \<lparr>val_at = (\<lambda>v. if v = 1 then tv_node 1 [Iteration, Reduction] None 0
                             else if v = 2 then tv_node 2 [Broadcast, Iteration] None 0
                             else tv_node v [Iteration] None 0),
              expr_at = (\<lambda>e. expr_node BinaryOp OtherUnary [0] [1])\<rparr>"

definition fusion_io :: Fusion where
  "fusion_io = empty_fusion\<lparr>val_set := {0, 1, 2}, val_deque := [0, 1, 2]\<rparr>"

definition heap_reg :: Heap where
  "heap_reg = \<lparr>val_at = (\<lambda>v. scalar_node v),
               expr_at = (\<lambda>e. if e = 11 then expr_node BinaryOp OtherUnary [0, 2] [1]
                               else expr_node BinaryOp OtherUnary [0] [1])\<rparr>"

definition fusion_reg :: Fusion where
  "fusion_reg = empty_fusion\<lparr>val_set := {0, 1, 2}, val_deque := [0, 1, 2], expr_set := {10},
      expr_name_counter := 1, origin_map := [1 \<mapsto> 10], uses_map := [0 \<mapsto> {10}]\<rparr>"

definition heap_rv :: Heap where
  "heap_rv = \<lparr>val_at = (\<lambda>v. scalar_node v),
              expr_at = (\<lambda>e. if e = 10 then expr_node BinaryOp OtherUnary [0] [1]
                              else if e = 11 then expr_node BinaryOp OtherUnary [1] [2]
                              else expr_node BinaryOp OtherUnary [1, 0] [3])\<rparr>"

definition fusion_rv :: Fusion where
  "fusion_rv = empty_fusion\<lparr>val_set := {0, 1, 2, 3}, val_deque := [0, 1, 2, 3],
      expr_set := {10, 11, 12}, expr_name_counter := 3,
      origin_map := [1 \<mapsto> 10, 2 \<mapsto> 11, 3 \<mapsto> 12],
      uses_map := [0 \<mapsto> {10, 12}, 1 \<mapsto> {11, 12}],
      fusion_inputs := [0], fusion_outputs := [3]\<rparr>"

text \<open>
  The graph of the repository's test \<open>testGPU_FusionTopoSort\<close>: Vals 0 to 6,
  expression 10 with outputs 3, 2 and inputs 1, 0; 11: 4 = add(3, 2); 12: 5 = add(2, 4);
  13: 6 = add(5, 5).
\<close>

definition heap_ts :: Heap where
  "heap_ts = \<lparr>val_at = (\<lambda>v. scalar_node v),
              expr_at = (\<lambda>e. if e = 10 then expr_node UnaryOp OtherUnary [1, 0] [3, 2]
                              else if e = 11 then expr_node BinaryOp OtherUnary [3, 2] [4]
                              else if e = 12 then expr_node BinaryOp OtherUnary [2, 4] [5]
                              else expr_node BinaryOp OtherUnary [5, 5] [6])\<rparr>"

definition fusion_ts :: "val_ptr list \<Rightarrow> Fusion" where
  "fusion_ts outs = empty_fusion\<lparr>val_set := {0, 1, 2, 3, 4, 5, 6},
      val_deque := [0, 1, 2, 3, 4, 5, 6],
      expr_set := {10, 11, 12, 13}, expr_name_counter := 4,
      origin_map := [3 \<mapsto> 10, 2 \<mapsto> 10, 4 \<mapsto> 11, 5 \<mapsto> 12, 6 \<mapsto> 13],
      uses_map := [1 \<mapsto> {10}, 0 \<mapsto> {10}, 3 \<mapsto> {11}, 2 \<mapsto> {11, 12}, 4 \<mapsto> {12}, 5 \<mapsto> {13}],
      fusion_outputs := outs\<rparr>"



text \<open>A ranking of the statements of \<open>fusion_ts\<close>.\<close>

fun rank_ts :: "Statement \<Rightarrow> nat" where
  "rank_ts (SVal v) = (if v \<le> 1 then 0 else if v \<le> 3 then 2 else if v = 4 then 4
                       else if v = 5 then 6 else 8)"
| "rank_ts (SExpr e) = (if e = 10 then 1 else if e = 11 then 3 else if e = 12 then 5 else 7)"

text \<open>
  A fusion with a random-like operator and a grid reduction: tensor view 0 and scalar 1
  are the inputs, 2 = rand_like(0), 3 = add(2, 1) is the output and has a reduction axis
  bound to a block index.
\<close>

definition heap_hd :: Heap where
  "heap_hd = \<lparr>val_at = (\<lambda>v. if v = 1 then scalar_node 1
                             else if v = 3
                             then (tv_node 3 [Iteration, Reduction] None 0)
                                    \<lparr>domain := [\<lparr>iter_type = Iteration, parallel_type = Serial\<rparr>,
                                                \<lparr>iter_type = Reduction, parallel_type = BIDx\<rparr>]\<rparr>
                             else tv_node v [Iteration] None 0),
              expr_at = (\<lambda>e. if e = 10 then expr_node UnaryOp RandLike [0] [2]
                              else expr_node BinaryOp OtherUnary [2, 1] [3])\<rparr>"

definition fusion_hd :: Fusion where
  "fusion_hd = empty_fusion\<lparr>val_set := {0, 1, 2, 3}, val_deque := [0, 1, 2, 3],
      expr_set := {10, 11}, expr_name_counter := 2,
      origin_map := [2 \<mapsto> 10, 3 \<mapsto> 11],
      uses_map := [0 \<mapsto> {10}, 2 \<mapsto> {11}, 1 \<mapsto> {11}],
      fusion_inputs := [0, 1], fusion_outputs := [3]\<rparr>"

definition digit :: "nat \<Rightarrow> string" where
  "digit n = (if n = 0 then ''0'' else if n = 1 then ''1'' else if n = 2 then ''2'' else ''3'')"

definition printer_hd :: Printer where
  "printer_hd = \<lparr>show_dtype = (\<lambda>t. ''float''), show_num = digit,
                  show_val = (\<lambda>v. ''f'' @ digit v), indent = ''  ''\<rparr>"

fun rank_hd :: "Statement \<Rightarrow> nat" where
  "rank_hd (SVal v) = (if v \<le> 1 then 0 else if v = 2 then 2 else 4)"
| "rank_hd (SExpr e) = (if e = 10 then 1 else 3)"

definition header_hd :: string where
  "header_hd =
     ''__global__ void kernel(Tensor<float, 1> T0, float f1, Tensor<float, 1> T3''
     @ '', unsigned long long seed, unsigned long long offset''
     @ '', void* work_buf, unsigned* sync_flags''
     @ ''){'' @ [CHR 0x0A]
     @ ''  int idx = blockIdx.x*blockDim.x + threadIdx.x;'' @ [CHR 0x0A]
     @ ''  Philox rnd(seed, idx, offset);'' @ [CHR 0x0A]
     @ ''  __shared__ float shared_mem[1024];'' @ [CHR 0x0A]"

section \<open>Checked failures of addInput and addOutput\<close>

text \<open>
  C5. For a Val registered to the Fusion, \<open>addInput\<close> fails exactly when the Val has an
  origin expression; a TensorView with a reduction axis and no origin is appended to the
  input list, and the once-only warning site has fired afterwards: the message is emitted
  by this call when the site had not fired yet, and not repeated when it had.
\<close>

theorem addInput_fails_iff_origin:
  assumes "inFusion h f (SVal v)"
  shows "((\<exists>e. snd (addInput h f w v) = Inl e) \<longleftrightarrow> origin_map f v \<noteq> None) \<and>
         (origin_map f v = None \<longrightarrow>
            snd (addInput h f w v) = Inr (f\<lparr>fusion_inputs := fusion_inputs f @ [v]\<rparr>)) \<and>
         (origin_map f v = None \<and> val_type (val_at h v) = TensorView \<and>
          hasReduction (val_at h v) \<longrightarrow>
            fired (fst (addInput h f w v)) \<and>
            emitted (fst (addInput h f w v)) =
              (if fired w then emitted w else emitted w @ [InputHasReduction v]))"
  using assms by (auto simp: addInput_def getOrigin_def Let_def TORCH_WARN_ONCE_def)

theorem addInput_fails_iff_origin_witness:
  "inFusion heap_io fusion_io (SVal 1) \<and>
   snd (addInput heap_io fusion_io \<lparr>fired = False, emitted = []\<rparr> 1)
     = Inr (fusion_io\<lparr>fusion_inputs := [1]\<rparr>) \<and>
   fst (addInput heap_io fusion_io \<lparr>fired = False, emitted = []\<rparr> 1)
     = \<lparr>fired = True, emitted = [InputHasReduction 1]\<rparr>"
  using addInput_fails_iff_origin [of heap_io fusion_io 1 "\<lparr>fired = False, emitted = []\<rparr>"]
  by (simp add: heap_io_def fusion_io_def empty_fusion_def tv_node_def hasReduction_def
      isReduction_def)

text \<open>
  C6. For a TensorView registered to the Fusion, \<open>addOutput\<close> fails exactly when the
  root domain of its tensor domain has a broadcast axis (a broadcast axis that was reduced
  has kind Reduction, not Broadcast); otherwise the Val is appended to the output list.
\<close>

theorem addOutput_fails_iff_broadcast:
  assumes "inFusion h f (SVal v)" and "val_type (val_at h v) = TensorView"
  shows "((\<exists>e. addOutput h f v = Inl e) \<longleftrightarrow> hasBroadcast (root_domain (val_at h v))) \<and>
         (\<not> hasBroadcast (root_domain (val_at h v)) \<longrightarrow>
            addOutput h f v = Inr (f\<lparr>fusion_outputs := fusion_outputs f @ [v]\<rparr>))"
  using assms by (simp add: addOutput_def)

theorem addOutput_fails_iff_broadcast_witness:
  "inFusion heap_io fusion_io (SVal 2) \<and> val_type (val_at heap_io 2) = TensorView \<and>
   hasBroadcast (root_domain (val_at heap_io 2)) \<and>
   addOutput heap_io fusion_io 2 = Inl HasBroadcastAxis \<and>
   addOutput heap_io fusion_io 0 = Inr (fusion_io\<lparr>fusion_outputs := [0]\<rparr>)"
  using addOutput_fails_iff_broadcast [of heap_io fusion_io 2]
  by (simp add: heap_io_def fusion_io_def empty_fusion_def tv_node_def hasBroadcast_def
      isBroadcast_def addOutput_def)


section \<open>Removing and registering expressions\<close>

lemma fold_erase_origin:
  "fold (erase_origin e) os m w =
     (if w \<in> set os \<and> m w = Some e then None else m w)"
  by (induction os arbitrary: m) (auto simp: erase_origin_def)

lemma fold_erase_use:
  "fold (erase_use e) is m i =
     (if i \<in> set is then map_option (\<lambda>s. s - {e}) (m i) else m i)"
  by (induction "is" arbitrary: m) (auto simp: erase_use_def split: option.splits)

lemma removeExpr_Inr:
  assumes "removeExpr h f e = Inr f'"
  shows "inFusion h f (SExpr e)"
    and "expr_set f' = expr_set f - {e}"
    and "origin_map f' w =
           (if w \<in> set (outputs (expr_at h e)) \<and> origin_map f w = Some e then None
            else origin_map f w)"
    and "uses_map f' i =
           (if i \<in> set (inputs (expr_at h e)) then map_option (\<lambda>s. s - {e}) (uses_map f i)
            else uses_map f i)"
    and "val_set f' = val_set f" and "this_ptr f' = this_ptr f"
    and "val_deque f' = val_deque f"
    and "fusion_inputs f' = fusion_inputs f" and "fusion_outputs f' = fusion_outputs f"
  using assms
  by (auto simp: removeExpr_def fold_erase_origin fold_erase_use split: if_splits)

lemma removeExpr_uses_of:
  assumes "removeExpr h f e = Inr f'"
  shows "uses_of f' i = (if i \<in> set (inputs (expr_at h e)) then uses_of f i - {e} else uses_of f i)"
  using removeExpr_Inr(4)[OF assms, of i]
  by (auto simp: uses_of_def split: option.splits)

lemma removeExpr_succeeds:
  "inFusion h f (SExpr e) \<Longrightarrow> \<exists>f'. removeExpr h f e = Inr f'"
  by (simp add: removeExpr_def)

lemma removeExpr_inFusion:
  assumes "removeExpr h f e = Inr f'"
  shows "inFusion h f' (SVal v) = inFusion h f (SVal v)"
    and "inFusion h f' (SExpr x) = (inFusion h f (SExpr x) \<and> x \<noteq> e)"
  using removeExpr_Inr[OF assms] by auto

lemma removeExpr_removed:
  assumes "removeExpr h f e = Inr f'"
  shows "expr_removed h f' e"
  unfolding expr_removed_def
  using removeExpr_Inr(2,3)[OF assms] removeExpr_uses_of[OF assms]
  by auto

lemma removeExpr_keeps_removed:
  assumes "removeExpr h f x = Inr f'" and "expr_removed h f old"
  shows "expr_removed h f' old"
  using assms(2) removeExpr_Inr(2,3)[OF assms(1)] removeExpr_uses_of[OF assms(1)]
  unfolding expr_removed_def by auto

lemma registerExpr_inputs_Inr:
  assumes "registerExpr_inputs h f e is = Inr f'"
  shows "expr_set f' = expr_set f \<and> origin_map f' = origin_map f \<and> val_set f' = val_set f \<and>
         this_ptr f' = this_ptr f \<and> val_deque f' = val_deque f \<and>
         fusion_inputs f' = fusion_inputs f \<and> fusion_outputs f' = fusion_outputs f \<and>
         expr_name_counter f' = expr_name_counter f \<and>
         (\<forall>i. uses_of f' i = (if i \<in> set is then insert e (uses_of f i) else uses_of f i))"
  using assms
proof (induction "is" arbitrary: f)
  case Nil
  then show ?case by simp
next
  case (Cons i rest)
  let ?g = "f\<lparr>uses_map := (case uses_map f i of None \<Rightarrow> (uses_map f)(i \<mapsto> {e})
                             | Some s \<Rightarrow> (uses_map f)(i \<mapsto> insert e s))\<rparr>"
  from Cons.prems have r: "registerExpr_inputs h ?g e rest = Inr f'"
    by (simp split: if_splits)
  have u: "\<And>j. uses_of ?g j = (if j = i then insert e (uses_of f j) else uses_of f j)"
    by (auto simp: uses_of_def split: option.splits)
  from Cons.IH[OF r] show ?case
    by (auto simp: u)
qed

lemma registerExpr_inputs_succeeds:
  "\<forall>i \<in> set is. inFusion h f (SVal i) \<Longrightarrow> \<exists>f'. registerExpr_inputs h f e is = Inr f'"
  by (induction "is" arbitrary: f) auto

lemma registerExpr_outputs_Cons:
  "registerExpr_outputs h f e (out # rest) =
     (if \<not> inFusion h f (SVal out) then Inl NotInFusion
      else case install_origin h f e out of
             Inl err \<Rightarrow> Inl err
           | Inr g \<Rightarrow> registerExpr_outputs h g e rest)"
  by (simp add: install_origin_def split: option.splits sum.splits)

lemma install_origin_Inr:
  assumes "install_origin h f e out = Inr g"
  shows "this_ptr g = this_ptr f" and "val_set g = val_set f"
    and "expr_set g = (case origin_map f out of None \<Rightarrow> expr_set f | Some old \<Rightarrow> expr_set f - {old})"
    and "origin_map g out = Some e"
    and "w \<noteq> out \<Longrightarrow> origin_map g w = Some x \<Longrightarrow> origin_map f w = Some x"
    and "w \<noteq> out \<Longrightarrow> origin_map f w = Some x \<Longrightarrow> origin_map f out \<noteq> Some x \<Longrightarrow>
           origin_map g w = Some x"
    and "w \<noteq> out \<Longrightarrow> origin_map f w = Some x \<Longrightarrow> w \<notin> set (outputs (expr_at h x)) \<Longrightarrow>
           origin_map g w = Some x"
    and "uses_of g i \<subseteq> uses_of f i"
    and "x \<in> uses_of f i \<Longrightarrow> origin_map f out \<noteq> Some x \<Longrightarrow> x \<in> uses_of g i"
    and "origin_map f out = Some old \<Longrightarrow> inFusion h f (SExpr old)"
    and "origin_map f out = Some old \<Longrightarrow> old \<noteq> e \<Longrightarrow> expr_removed h g old"
    and "expr_removed h f y \<Longrightarrow> y \<noteq> e \<Longrightarrow> expr_removed h g y"
    and "val_deque g = val_deque f" and "fusion_inputs g = fusion_inputs f"
    and "fusion_outputs g = fusion_outputs f" and "expr_name_counter g = expr_name_counter f"
proof -
  show "this_ptr g = this_ptr f" "val_set g = val_set f" "origin_map g out = Some e"
       "val_deque g = val_deque f" "fusion_inputs g = fusion_inputs f"
       "fusion_outputs g = fusion_outputs f" "expr_name_counter g = expr_name_counter f"
    using assms
    by (auto simp: install_origin_def removeExpr_def split: option.splits sum.splits if_splits)
  show "expr_set g = (case origin_map f out of None \<Rightarrow> expr_set f | Some old \<Rightarrow> expr_set f - {old})"
    using assms
    by (auto simp: install_origin_def removeExpr_def split: option.splits sum.splits if_splits)
  show "w \<noteq> out \<Longrightarrow> origin_map g w = Some x \<Longrightarrow> origin_map f w = Some x"
    using assms
    by (auto simp: install_origin_def removeExpr_def fold_erase_origin
        split: option.splits sum.splits if_splits)
  show "w \<noteq> out \<Longrightarrow> origin_map f w = Some x \<Longrightarrow> origin_map f out \<noteq> Some x \<Longrightarrow>
           origin_map g w = Some x"
    using assms
    by (auto simp: install_origin_def removeExpr_def fold_erase_origin
        split: option.splits sum.splits if_splits)
  show "w \<noteq> out \<Longrightarrow> origin_map f w = Some x \<Longrightarrow> w \<notin> set (outputs (expr_at h x)) \<Longrightarrow>
           origin_map g w = Some x"
    using assms
    by (auto simp: install_origin_def removeExpr_def fold_erase_origin
        split: option.splits sum.splits if_splits)
  show "uses_of g i \<subseteq> uses_of f i"
    using assms
    by (auto simp: install_origin_def removeExpr_def fold_erase_use uses_of_def
        split: option.splits sum.splits if_splits)
  show "x \<in> uses_of f i \<Longrightarrow> origin_map f out \<noteq> Some x \<Longrightarrow> x \<in> uses_of g i"
    using assms
    by (auto simp: install_origin_def removeExpr_def fold_erase_use uses_of_def
        split: option.splits sum.splits if_splits)
  show "origin_map f out = Some old \<Longrightarrow> inFusion h f (SExpr old)"
    using assms
    by (auto simp: install_origin_def removeExpr_def split: option.splits sum.splits if_splits)
  show "expr_removed h g old" if o: "origin_map f out = Some old" and ne: "old \<noteq> e"
  proof -
    from assms o obtain f1 where r: "removeExpr h f old = Inr f1"
      and g: "g = f1\<lparr>origin_map := (origin_map f1)(out \<mapsto> e)\<rparr>"
      by (auto simp: install_origin_def split: sum.splits)
    from removeExpr_removed[OF r] ne show ?thesis
      by (auto simp: g expr_removed_def uses_of_def)
  qed
  show "expr_removed h g y" if y: "expr_removed h f y" and ne: "y \<noteq> e"
  proof (cases "origin_map f out")
    case None
    with assms have "g = f\<lparr>origin_map := (origin_map f)(out \<mapsto> e)\<rparr>"
      by (simp add: install_origin_def)
    with y ne show ?thesis by (auto simp: expr_removed_def uses_of_def)
  next
    case (Some old)
    with assms obtain f1 where r: "removeExpr h f old = Inr f1"
      and g: "g = f1\<lparr>origin_map := (origin_map f1)(out \<mapsto> e)\<rparr>"
      by (auto simp: install_origin_def split: sum.splits)
    from removeExpr_keeps_removed[OF r y] ne show ?thesis
      by (auto simp: g expr_removed_def uses_of_def)
  qed
qed

lemma registerExpr_outputs_ConsE:
  assumes "registerExpr_outputs h f e (out # rest) = Inr f'"
  obtains g where "inFusion h f (SVal out)" and "install_origin h f e out = Inr g"
    and "registerExpr_outputs h g e rest = Inr f'"
  using assms unfolding registerExpr_outputs_Cons
  by (auto split: if_splits sum.splits)

lemma registerExpr_outputs_frame:
  assumes "registerExpr_outputs h f e os = Inr f'"
  shows "this_ptr f' = this_ptr f \<and> val_set f' = val_set f \<and> expr_set f' \<subseteq> expr_set f \<and>
         val_deque f' = val_deque f \<and> fusion_inputs f' = fusion_inputs f \<and>
         fusion_outputs f' = fusion_outputs f \<and> expr_name_counter f' = expr_name_counter f"
  using assms
proof (induction os arbitrary: f)
  case Nil
  then show ?case by simp
next
  case (Cons out rest)
  from Cons.prems(1) obtain g where g: "install_origin h f e out = Inr g"
    and r: "registerExpr_outputs h g e rest = Inr f'"
    by (rule registerExpr_outputs_ConsE)
  from Cons.IH[OF r] install_origin_Inr(1,2,3,13,14,15,16)[OF g] show ?case
    by (auto split: option.splits)
qed

lemma registerExpr_outputs_not_inFusion:
  assumes "install_origin h f e out = Inr g" and "\<not> inFusion h f (SExpr e)"
  shows "\<not> inFusion h g (SExpr e)"
  using install_origin_Inr(1,3)[OF assms(1)] assms(2) by (auto split: option.splits)

lemma registerExpr_outputs_keeps_removed:
  assumes "registerExpr_outputs h f e os = Inr f'" and "expr_removed h f y" and "y \<noteq> e"
  shows "expr_removed h f' y"
  using assms
proof (induction os arbitrary: f)
  case Nil
  then show ?case by simp
next
  case (Cons out rest)
  from Cons.prems(1) obtain g where g: "install_origin h f e out = Inr g"
    and r: "registerExpr_outputs h g e rest = Inr f'"
    by (rule registerExpr_outputs_ConsE)
  from Cons.IH[OF r install_origin_Inr(12)[OF g Cons.prems(2,3)] Cons.prems(3)]
  show ?case .
qed

lemma registerExpr_outputs_uses:
  assumes "registerExpr_outputs h f e os = Inr f'" and "\<not> inFusion h f (SExpr e)"
    and "e \<in> uses_of f i"
  shows "e \<in> uses_of f' i"
  using assms
proof (induction os arbitrary: f)
  case Nil
  then show ?case by simp
next
  case (Cons out rest)
  from Cons.prems(1) obtain g where g: "install_origin h f e out = Inr g"
    and r: "registerExpr_outputs h g e rest = Inr f'"
    by (rule registerExpr_outputs_ConsE)
  have ne: "origin_map f out \<noteq> Some e"
    using install_origin_Inr(10)[OF g, of e] Cons.prems(2) by auto
  from Cons.IH[OF r registerExpr_outputs_not_inFusion[OF g Cons.prems(2)]
      install_origin_Inr(9)[OF g Cons.prems(3) ne]]
  show ?case .
qed

lemma registerExpr_outputs_origin:
  assumes "registerExpr_outputs h f e os = Inr f'" and "\<not> inFusion h f (SExpr e)"
  shows "(\<forall>w. origin_map f w = Some e \<longrightarrow> origin_map f' w = Some e) \<and>
         (\<forall>out \<in> set os. origin_map f' out = Some e)"
  using assms
proof (induction os arbitrary: f)
  case Nil
  then show ?case by simp
next
  case (Cons out rest)
  from Cons.prems(1) obtain g where g: "install_origin h f e out = Inr g"
    and r: "registerExpr_outputs h g e rest = Inr f'"
    by (rule registerExpr_outputs_ConsE)
  have ne: "origin_map f out \<noteq> Some e"
    using install_origin_Inr(10)[OF g, of e] Cons.prems(2) by auto
  note ih = Cons.IH[OF r registerExpr_outputs_not_inFusion[OF g Cons.prems(2)]]
  have keep: "origin_map g w = Some e" if "origin_map f w = Some e" for w
    using install_origin_Inr(4,6)[OF g] that ne by (cases "w = out") auto
  from ih keep install_origin_Inr(4)[OF g] show ?case by auto
qed

lemma registerExpr_outputs_removes:
  assumes "registerExpr_outputs h f e os = Inr f'" and "\<not> inFusion h f (SExpr e)"
    and "out \<in> set os" and "origin_map f out = Some old"
  shows "expr_removed h f' old"
  using assms
proof (induction os arbitrary: f)
  case Nil
  then show ?case by simp
next
  case (Cons out0 rest)
  from Cons.prems(1) obtain g where g: "install_origin h f e out0 = Inr g"
    and r: "registerExpr_outputs h g e rest = Inr f'"
    by (rule registerExpr_outputs_ConsE)
  note nin = registerExpr_outputs_not_inFusion[OF g Cons.prems(2)]
  show ?case
  proof (cases "origin_map f out0 = Some old")
    case True
    with install_origin_Inr(10)[OF g True] Cons.prems(2) have ne: "old \<noteq> e" by auto
    from registerExpr_outputs_keeps_removed[OF r install_origin_Inr(11)[OF g True ne] ne]
    show ?thesis .
  next
    case False
    with Cons.prems(3,4) have mem: "out \<in> set rest" and neq: "out \<noteq> out0" by auto
    from install_origin_Inr(6)[OF g neq Cons.prems(4) False]
    have "origin_map g out = Some old" .
    from Cons.IH[OF r nin mem this] show ?thesis .
  qed
qed

lemma registerExpr_outputs_succeeds:
  assumes "\<forall>out \<in> set os. inFusion h f (SVal out)" and "distinct os"
    and "\<forall>out \<in> set os. \<forall>old. origin_map f out = Some old \<longrightarrow>
           inFusion h f (SExpr old) \<and> out \<in> set (outputs (expr_at h old))"
  shows "\<exists>f'. registerExpr_outputs h f e os = Inr f'"
  using assms
proof (induction os arbitrary: f)
  case Nil
  then show ?case by simp
next
  case (Cons out0 rest)
  have "\<exists>g. install_origin h f e out0 = Inr g"
  proof (cases "origin_map f out0")
    case None
    then show ?thesis by (simp add: install_origin_def)
  next
    case (Some old)
    with Cons.prems(3) have "inFusion h f (SExpr old)" by auto
    from removeExpr_succeeds[OF this] Some show ?thesis
      by (auto simp: install_origin_def)
  qed
  then obtain g where g: "install_origin h f e out0 = Inr g" ..
  have 1: "\<forall>out \<in> set rest. inFusion h g (SVal out)"
    using Cons.prems(1) install_origin_Inr(1,2)[OF g] by auto
  have 2: "distinct rest" using Cons.prems(2) by simp
  have 3: "\<forall>out \<in> set rest. \<forall>old. origin_map g out = Some old \<longrightarrow>
           inFusion h g (SExpr old) \<and> out \<in> set (outputs (expr_at h old))"
  proof (intro ballI allI impI)
    fix out old assume m: "out \<in> set rest" and og: "origin_map g out = Some old"
    from m Cons.prems(2) have neq: "out \<noteq> out0" by auto
    from install_origin_Inr(5)[OF g neq og] have of: "origin_map f out = Some old" .
    with Cons.prems(3) m have inf: "inFusion h f (SExpr old)"
      and mem: "out \<in> set (outputs (expr_at h old))" by auto
    have "origin_map f out0 \<noteq> Some old"
    proof
      assume t: "origin_map f out0 = Some old"
      with g obtain f1 where r: "removeExpr h f old = Inr f1"
        and gd: "g = f1\<lparr>origin_map := (origin_map f1)(out0 \<mapsto> e)\<rparr>"
        by (auto simp: install_origin_def split: sum.splits)
      from removeExpr_Inr(3)[OF r, of out] mem of have "origin_map f1 out = None" by simp
      with gd neq og show False by simp
    qed
    with inf install_origin_Inr(1,3)[OF g] have "inFusion h g (SExpr old)"
      by (auto split: option.splits)
    with mem show "inFusion h g (SExpr old) \<and> out \<in> set (outputs (expr_at h old))" by simp
  qed
  from Cons.IH[OF 1 2 3] g Cons.prems(1) show ?case
    unfolding registerExpr_outputs_Cons by auto
qed

lemma registerExpr_outputs_no_self_origin:
  assumes "registerExpr_outputs h f e os = Inr f'" and "\<not> inFusion h f (SExpr e)"
    and "out \<in> set os"
  shows "origin_map f out \<noteq> Some e"
  using assms
proof (induction os arbitrary: f)
  case Nil
  then show ?case by simp
next
  case (Cons out0 rest)
  from Cons.prems(1) obtain g where g: "install_origin h f e out0 = Inr g"
    and r: "registerExpr_outputs h g e rest = Inr f'"
    by (rule registerExpr_outputs_ConsE)
  have ne: "origin_map f out0 \<noteq> Some e"
    using install_origin_Inr(10)[OF g, of e] Cons.prems(2) by auto
  show ?case
  proof (cases "out = out0")
    case True
    with ne show ?thesis by simp
  next
    case False
    with Cons.prems(3) have mem: "out \<in> set rest" by simp
    from Cons.IH[OF r registerExpr_outputs_not_inFusion[OF g Cons.prems(2)] mem]
    have "origin_map g out \<noteq> Some e" .
    with install_origin_Inr(6)[OF g False _ ne] show ?thesis by blast
  qed
qed

text \<open>
  C3. Registering an expression that is not yet in the Fusion: when \<open>registerExpr\<close>
  returns, the expression is in the expression set, it is in the uses of each of its
  inputs and it is the origin of each of its outputs; an expression that was the origin
  of one of these outputs before is a different expression and has been removed, with
  its origin entries and its uses entries. On a consistent Fusion (operands registered,
  outputs pairwise different, each old origin registered and listing the output) the
  call returns: redefinition is not an error.
\<close>

theorem registerExpr_links:
  assumes fresh: "\<not> inFusion h f (SExpr e)"
  shows "(\<forall>n f'. registerExpr h f e = Inr (n, f') \<longrightarrow>
            e \<in> expr_set f' \<and>
            (\<forall>i \<in> set (inputs (expr_at h e)). e \<in> uses_of f' i) \<and>
            (\<forall>out \<in> set (outputs (expr_at h e)). origin_map f' out = Some e) \<and>
            (\<forall>out \<in> set (outputs (expr_at h e)). \<forall>old.
                origin_map f out = Some old \<longrightarrow> old \<noteq> e \<and> expr_removed h f' old)) \<and>
         ((expr_fusion (expr_at h e) = None \<or> expr_fusion (expr_at h e) = Some (this_ptr f)) \<and>
          (\<forall>i \<in> set (inputs (expr_at h e)). inFusion h f (SVal i)) \<and>
          (\<forall>out \<in> set (outputs (expr_at h e)). inFusion h f (SVal out)) \<and>
          distinct (outputs (expr_at h e)) \<and>
          (\<forall>out \<in> set (outputs (expr_at h e)). \<forall>old. origin_map f out = Some old \<longrightarrow>
              inFusion h f (SExpr old) \<and> out \<in> set (outputs (expr_at h old)))
          \<longrightarrow> (\<exists>n f'. registerExpr h f e = Inr (n, f')))"
proof (intro conjI allI impI)
  fix n f' assume ok: "registerExpr h f e = Inr (n, f')"
  from ok fresh obtain f1 f2 where
    1: "registerExpr_inputs h f e (inputs (expr_at h e)) = Inr f1" and
    2: "registerExpr_outputs h f1 e (outputs (expr_at h e)) = Inr f2" and
    3: "f' = f2\<lparr>expr_set := insert e (expr_set f2),
                expr_name_counter := expr_name_counter f2 + 1\<rparr>"
    by (auto simp: registerExpr_def getExprName_def split: if_splits sum.splits)
  note in1 = registerExpr_inputs_Inr[OF 1]
  from in1 fresh have fresh1: "\<not> inFusion h f1 (SExpr e)" by simp
  show "e \<in> expr_set f'" by (simp add: 3)
  show "\<forall>i \<in> set (inputs (expr_at h e)). e \<in> uses_of f' i"
  proof
    fix i assume "i \<in> set (inputs (expr_at h e))"
    with in1 have "e \<in> uses_of f1 i" by simp
    from registerExpr_outputs_uses[OF 2 fresh1 this] show "e \<in> uses_of f' i"
      by (simp add: 3 uses_of_def)
  qed
  show "\<forall>out \<in> set (outputs (expr_at h e)). origin_map f' out = Some e"
    using registerExpr_outputs_origin[OF 2 fresh1] by (simp add: 3)
  show "\<forall>out \<in> set (outputs (expr_at h e)). \<forall>old.
          origin_map f out = Some old \<longrightarrow> old \<noteq> e \<and> expr_removed h f' old"
  proof (intro ballI allI impI)
    fix out old
    assume m: "out \<in> set (outputs (expr_at h e))" and o: "origin_map f out = Some old"
    from o in1 have o1: "origin_map f1 out = Some old" by simp
    from registerExpr_outputs_no_self_origin[OF 2 fresh1 m] o1 have ne: "old \<noteq> e" by auto
    from registerExpr_outputs_removes[OF 2 fresh1 m o1] ne
    show "old \<noteq> e \<and> expr_removed h f' old"
      by (simp add: 3 expr_removed_def uses_of_def)
  qed
next
  assume wf: "(expr_fusion (expr_at h e) = None \<or> expr_fusion (expr_at h e) = Some (this_ptr f)) \<and>
          (\<forall>i \<in> set (inputs (expr_at h e)). inFusion h f (SVal i)) \<and>
          (\<forall>out \<in> set (outputs (expr_at h e)). inFusion h f (SVal out)) \<and>
          distinct (outputs (expr_at h e)) \<and>
          (\<forall>out \<in> set (outputs (expr_at h e)). \<forall>old. origin_map f out = Some old \<longrightarrow>
              inFusion h f (SExpr old) \<and> out \<in> set (outputs (expr_at h old)))"
  then obtain f1 where 1: "registerExpr_inputs h f e (inputs (expr_at h e)) = Inr f1"
    using registerExpr_inputs_succeeds by blast
  note in1 = registerExpr_inputs_Inr[OF 1]
  have "\<exists>f2. registerExpr_outputs h f1 e (outputs (expr_at h e)) = Inr f2"
  proof (rule registerExpr_outputs_succeeds)
    show "\<forall>out \<in> set (outputs (expr_at h e)). inFusion h f1 (SVal out)"
      using wf in1 by simp
    show "distinct (outputs (expr_at h e))" using wf by simp
    show "\<forall>out \<in> set (outputs (expr_at h e)). \<forall>old. origin_map f1 out = Some old \<longrightarrow>
              inFusion h f1 (SExpr old) \<and> out \<in> set (outputs (expr_at h old))"
      using wf in1 by simp
  qed
  then obtain f2 where 2: "registerExpr_outputs h f1 e (outputs (expr_at h e)) = Inr f2" ..
  from wf fresh 1 2 show "\<exists>n f'. registerExpr h f e = Inr (n, f')"
    by (auto simp: registerExpr_def getExprName_def)
qed

theorem registerExpr_links_witness:
  "\<not> inFusion heap_reg fusion_reg (SExpr 11) \<and>
   origin_map fusion_reg 1 = Some 10 \<and>
   (\<exists>f'. registerExpr heap_reg fusion_reg 11 = Inr (1, f') \<and>
      expr_set f' = {11} \<and> origin_map f' 1 = Some 11 \<and>
      uses_of f' 0 = {11} \<and> uses_of f' 2 = {11} \<and> expr_removed heap_reg f' 10)"
proof -
  have fresh: "\<not> inFusion heap_reg fusion_reg (SExpr 11)"
    by (simp add: fusion_reg_def empty_fusion_def)
  have o: "origin_map fusion_reg 1 = Some 10"
    by (simp add: fusion_reg_def empty_fusion_def)
  have m: "1 \<in> set (outputs (expr_at heap_reg 11))"
    by (simp add: heap_reg_def expr_node_def)
  have "\<exists>f'. registerExpr heap_reg fusion_reg 11 = Inr (1, f') \<and>
      expr_set f' = {11} \<and> origin_map f' 1 = Some 11 \<and>
      uses_of f' 0 = {11} \<and> uses_of f' 2 = {11}"
    by (simp add: registerExpr_def getExprName_def removeExpr_def heap_reg_def fusion_reg_def
        empty_fusion_def expr_node_def scalar_node_def erase_origin_def erase_use_def
        uses_of_def insert_Diff_if)
  then obtain f' where run: "registerExpr heap_reg fusion_reg 11 = Inr (1, f')"
    and ev: "expr_set f' = {11}" "origin_map f' 1 = Some 11" "uses_of f' 0 = {11}"
      "uses_of f' 2 = {11}"
    by blast
  from registerExpr_links[OF fresh] run m o have "expr_removed heap_reg f' 10"
    by blast
  with fresh o run ev show ?thesis by blast
qed




lemma removeExprs_Inr:
  assumes "removeExprs h f us = Inr f'"
  shows "expr_set f' = expr_set f - set us \<and> val_set f' = val_set f \<and>
         this_ptr f' = this_ptr f \<and> val_deque f' = val_deque f \<and>
         fusion_inputs f' = fusion_inputs f \<and> fusion_outputs f' = fusion_outputs f \<and>
         (\<forall>u \<in> set us. expr_removed h f' u) \<and>
         (\<forall>y. expr_removed h f y \<longrightarrow> expr_removed h f' y)"
  using assms
proof (induction us arbitrary: f)
  case Nil
  then show ?case by simp
next
  case (Cons u rest)
  from Cons.prems obtain g where g: "removeExpr h f u = Inr g"
    and r: "removeExprs h g rest = Inr f'"
    by (auto split: sum.splits)
  from Cons.IH[OF r] removeExpr_Inr(2,5,6,7,8,9)[OF g] removeExpr_removed[OF g]
    removeExpr_keeps_removed[OF g]
  show ?case by auto
qed

lemma removeExprs_succeeds:
  assumes "distinct us" and "\<forall>u \<in> set us. inFusion h f (SExpr u)"
  shows "\<exists>f'. removeExprs h f us = Inr f'"
  using assms
proof (induction us arbitrary: f)
  case Nil
  then show ?case by simp
next
  case (Cons u rest)
  from Cons.prems(2) have "inFusion h f (SExpr u)" by simp
  from removeExpr_succeeds[OF this] obtain g where g: "removeExpr h f u = Inr g" ..
  have "\<forall>x \<in> set rest. inFusion h g (SExpr x)"
    using Cons.prems removeExpr_Inr(2,6)[OF g] by auto
  from Cons.IH[OF _ this] Cons.prems(1) g show ?case by auto
qed

text \<open>
  C7. \<open>removeVal\<close> on a Val that is a registered input or output is a checked failure
  (\<open>sameAs\<close> holds of a Val and itself). When the call returns, the origin expression
  of the Val and every expression in its uses have been removed with their origin and
  uses entries, nothing else left the expression set, and the Val is erased from the
  node set and (its first occurrence) from the value sequence. The call returns when the
  Val is registered, is not the same as a registered input or output, and its origin and
  its uses are registered expressions that read it.
\<close>

theorem removeVal_checked:
  assumes refl: "\<And>x. sameAs x x"
    and iter: "\<forall>S. S \<subseteq> uses_of f v \<longrightarrow> set (iter S) = S \<and> distinct (iter S)"
  shows "(v \<in> set (fusion_inputs f) \<union> set (fusion_outputs f) \<longrightarrow>
            (\<exists>err. removeVal sameAs iter h f v = Inl err)) \<and>
         (\<forall>f'. removeVal sameAs iter h f v = Inr f' \<longrightarrow>
            (\<forall>orig. origin_map f v = Some orig \<longrightarrow> expr_removed h f' orig) \<and>
            (\<forall>u \<in> uses_of f v. expr_removed h f' u) \<and>
            expr_set f' = expr_set f - (set_option (origin_map f v) \<union> uses_of f v) \<and>
            val_set f' = val_set f - {v} \<and>
            val_deque f' = remove1 v (val_deque f)) \<and>
         (inFusion h f (SVal v) \<and>
          \<not> list_ex (sameAs v) (fusion_inputs f) \<and> \<not> list_ex (sameAs v) (fusion_outputs f) \<and>
          (\<forall>orig. origin_map f v = Some orig \<longrightarrow> inFusion h f (SExpr orig)) \<and>
          (\<forall>u \<in> uses_of f v. inFusion h f (SExpr u) \<and> v \<in> set (inputs (expr_at h u)))
          \<longrightarrow> (\<exists>f'. removeVal sameAs iter h f v = Inr f'))"
proof -
  have A: "\<exists>err. removeVal sameAs iter h f v = Inl err"
    if "v \<in> set (fusion_inputs f) \<union> set (fusion_outputs f)"
  proof -
    from that refl
    have "list_ex (sameAs v) (fusion_inputs f) \<or> list_ex (sameAs v) (fusion_outputs f)"
      by (auto simp: list_ex_iff)
    then show ?thesis by (auto simp: removeVal_def)
  qed
  have B: "(\<forall>orig. origin_map f v = Some orig \<longrightarrow> expr_removed h f' orig) \<and>
            (\<forall>u \<in> uses_of f v. expr_removed h f' u) \<and>
            expr_set f' = expr_set f - (set_option (origin_map f v) \<union> uses_of f v) \<and>
            val_set f' = val_set f - {v} \<and>
            val_deque f' = remove1 v (val_deque f)"
    if ok: "removeVal sameAs iter h f v = Inr f'" for f'
  proof (intro conjI)
  from ok obtain f1 f2 where
    inf: "inFusion h f (SVal v)" and
    1: "(case origin_map f v of None \<Rightarrow> Inr f | Some orig \<Rightarrow> removeExpr h f orig) = Inr f1" and
    2: "removeExprs h f1 (iter (uses_of f1 v)) = Inr f2" and
    3: "f' = f2\<lparr>val_set := val_set f2 - {v}, val_deque := remove1 v (val_deque f2)\<rparr>"
    by (auto simp: removeVal_def unordered_uses_def uses_of_def split: if_splits sum.splits)
  have sub: "uses_of f1 v \<subseteq> uses_of f v"
    using 1 removeExpr_uses_of by (cases "origin_map f v") (auto split: if_splits)
  note it = iter[rule_format, OF sub]
  note r2 = removeExprs_Inr[OF 2]
  have f1: "expr_set f1 = expr_set f - set_option (origin_map f v) \<and> val_set f1 = val_set f \<and>
        val_deque f1 = val_deque f"
    using 1 removeExpr_Inr(2,5,7) by (cases "origin_map f v") auto
  have orig_gone: "expr_removed h f2 orig" if "origin_map f v = Some orig" for orig
    using that 1 removeExpr_removed r2 by auto
  have rest: "u \<in> uses_of f1 v" if "u \<in> uses_of f v" "origin_map f v \<noteq> Some u" for u
    using that 1 removeExpr_uses_of by (cases "origin_map f v") (auto split: if_splits)
  have use_gone: "expr_removed h f2 u" if "u \<in> uses_of f v" for u
  proof (cases "origin_map f v = Some u")
    case True
    then show ?thesis by (rule orig_gone)
  next
    case False
    from rest[OF that False] it r2 show ?thesis by auto
  qed
  show "\<forall>orig. origin_map f v = Some orig \<longrightarrow> expr_removed h f' orig"
    using orig_gone by (auto simp: 3 expr_removed_def uses_of_def)
  show "\<forall>u \<in> uses_of f v. expr_removed h f' u"
    using use_gone by (auto simp: 3 expr_removed_def uses_of_def)
  show "expr_set f' = expr_set f - (set_option (origin_map f v) \<union> uses_of f v)"
  proof -
    have "expr_set f' = expr_set f - set_option (origin_map f v) - uses_of f1 v"
      using r2 it f1 by (simp add: 3)
    also have "\<dots> = expr_set f - (set_option (origin_map f v) \<union> uses_of f v)"
      using sub rest by (cases "origin_map f v") auto
    finally show ?thesis .
  qed
  show "val_set f' = val_set f - {v}" using r2 f1 by (simp add: 3)
  show "val_deque f' = remove1 v (val_deque f)" using r2 f1 by (simp add: 3)
  qed
  have C: "\<exists>f'. removeVal sameAs iter h f v = Inr f'"
    if wf: "inFusion h f (SVal v) \<and>
          \<not> list_ex (sameAs v) (fusion_inputs f) \<and> \<not> list_ex (sameAs v) (fusion_outputs f) \<and>
          (\<forall>orig. origin_map f v = Some orig \<longrightarrow> inFusion h f (SExpr orig)) \<and>
          (\<forall>u \<in> uses_of f v. inFusion h f (SExpr u) \<and> v \<in> set (inputs (expr_at h u)))"
  proof -
  have "\<exists>f1. (case origin_map f v of None \<Rightarrow> Inr f | Some orig \<Rightarrow> removeExpr h f orig) = Inr f1"
    using wf removeExpr_succeeds by (cases "origin_map f v") auto
  then obtain f1 where
    1: "(case origin_map f v of None \<Rightarrow> Inr f | Some orig \<Rightarrow> removeExpr h f orig) = Inr f1" ..
  have sub: "uses_of f1 v \<subseteq> uses_of f v"
    using 1 removeExpr_uses_of by (cases "origin_map f v") (auto split: if_splits)
  note it = iter[rule_format, OF sub]
  have inf1: "inFusion h f1 (SVal v)"
    using 1 wf removeExpr_Inr(5,6) by (cases "origin_map f v") auto
  have "\<forall>u \<in> set (iter (uses_of f1 v)). inFusion h f1 (SExpr u)"
  proof
    fix u assume "u \<in> set (iter (uses_of f1 v))"
    with it have u1: "u \<in> uses_of f1 v" by simp
    with sub wf have u: "inFusion h f (SExpr u)" "v \<in> set (inputs (expr_at h u))" by auto
    show "inFusion h f1 (SExpr u)"
    proof (cases "origin_map f v")
      case None
      with 1 u show ?thesis by simp
    next
      case (Some orig)
      with 1 have r: "removeExpr h f orig = Inr f1" by simp
      from removeExpr_uses_of[OF r, of v] u1 u(2) have "u \<noteq> orig" by (auto split: if_splits)
      with removeExpr_Inr(2,6)[OF r] u(1) show ?thesis by simp
    qed
  qed
  from removeExprs_succeeds[OF _ this] it obtain f2
    where 2: "removeExprs h f1 (iter (uses_of f1 v)) = Inr f2" by blast
  from wf 1 2 inf1 show "\<exists>f'. removeVal sameAs iter h f v = Inr f'"
    by (auto simp: removeVal_def unordered_uses_def uses_of_def split: option.splits)
  qed
  from A B C show ?thesis by blast
qed

theorem removeVal_checked_witness:
  "(\<exists>err. removeVal (=) sorted_list_of_set heap_rv fusion_rv 0 = Inl err) \<and>
   (\<exists>f'. removeVal (=) sorted_list_of_set heap_rv fusion_rv 1 = Inr f' \<and>
      expr_removed heap_rv f' 10 \<and> expr_removed heap_rv f' 11 \<and> expr_removed heap_rv f' 12 \<and>
      expr_set f' = {} \<and> val_set f' = {0, 2, 3} \<and> val_deque f' = [0, 2, 3])"
proof -
  have u1: "uses_of fusion_rv 1 = {11, 12}"
    by (simp add: uses_of_def fusion_rv_def empty_fusion_def)
  have it: "\<forall>S. S \<subseteq> uses_of fusion_rv v \<longrightarrow>
              set (sorted_list_of_set S) = S \<and> distinct (sorted_list_of_set S)" for v
  proof (intro allI impI)
    fix S assume sub: "S \<subseteq> uses_of fusion_rv v"
    have "finite (uses_of fusion_rv v)"
      by (simp add: uses_of_def fusion_rv_def empty_fusion_def)
    with sub have "finite S" by (rule finite_subset)
    then show "set (sorted_list_of_set S) = S \<and> distinct (sorted_list_of_set S)" by simp
  qed
  note t0 = removeVal_checked[of "(=)" fusion_rv 0 sorted_list_of_set heap_rv,
      OF refl it[where v = 0]]
  note t1 = removeVal_checked[of "(=)" fusion_rv 1 sorted_list_of_set heap_rv,
      OF refl it[where v = 1]]
  have m0: "0 \<in> set (fusion_inputs fusion_rv) \<union> set (fusion_outputs fusion_rv)"
    by (simp add: fusion_rv_def empty_fusion_def)
  from t0[THEN conjunct1, rule_format, OF m0]
  have a: "\<exists>err. removeVal (=) sorted_list_of_set heap_rv fusion_rv 0 = Inl err" .
  have o: "origin_map fusion_rv 1 = Some 10"
    by (simp add: fusion_rv_def empty_fusion_def)
  have w1: "inFusion heap_rv fusion_rv (SVal 1)"
    by (simp add: fusion_rv_def empty_fusion_def heap_rv_def scalar_node_def)
  have w2: "\<not> list_ex ((=) 1) (fusion_inputs fusion_rv)"
    "\<not> list_ex ((=) 1) (fusion_outputs fusion_rv)"
    by (simp_all add: fusion_rv_def empty_fusion_def)
  have w3: "\<forall>orig. origin_map fusion_rv 1 = Some orig \<longrightarrow> inFusion heap_rv fusion_rv (SExpr orig)"
    unfolding o
    by (simp add: fusion_rv_def empty_fusion_def heap_rv_def expr_node_def)
  have w4: "\<forall>u \<in> uses_of fusion_rv 1. inFusion heap_rv fusion_rv (SExpr u) \<and>
               1 \<in> set (inputs (expr_at heap_rv u))"
    unfolding u1
    by (simp add: fusion_rv_def empty_fusion_def heap_rv_def expr_node_def)
  have "\<exists>f'. removeVal (=) sorted_list_of_set heap_rv fusion_rv 1 = Inr f'"
    by (rule t1[THEN conjunct2, THEN conjunct2, rule_format]) (intro conjI w1 w2 w3 w4)
  then obtain f' where run: "removeVal (=) sorted_list_of_set heap_rv fusion_rv 1 = Inr f'" ..
  note p = t1[THEN conjunct2, THEN conjunct1, rule_format, OF run]
  from p[THEN conjunct1, rule_format, OF o] have g10: "expr_removed heap_rv f' 10" .
  from p[THEN conjunct2, THEN conjunct1] have g11: "expr_removed heap_rv f' 11"
    and g12: "expr_removed heap_rv f' 12"
    unfolding u1 by simp_all
  from p[THEN conjunct2, THEN conjunct2, THEN conjunct1] have e: "expr_set f' = {}"
    unfolding u1 o by (simp add: fusion_rv_def empty_fusion_def)
  from p[THEN conjunct2, THEN conjunct2, THEN conjunct2, THEN conjunct1]
  have vs: "val_set f' = {0, 2, 3}"
    by (simp add: fusion_rv_def empty_fusion_def insert_Diff_if)
  from p[THEN conjunct2, THEN conjunct2, THEN conjunct2, THEN conjunct2]
  have vd: "val_deque f' = [0, 2, 3]"
    by (simp add: fusion_rv_def empty_fusion_def)
  from run g10 g11 g12 e vs vd
  have "\<exists>f'. removeVal (=) sorted_list_of_set heap_rv fusion_rv 1 = Inr f' \<and>
      expr_removed heap_rv f' 10 \<and> expr_removed heap_rv f' 11 \<and> expr_removed heap_rv f' 12 \<and>
      expr_set f' = {} \<and> val_set f' = {0, 2, 3} \<and> val_deque f' = [0, 2, 3]"
    by (intro exI[of _ f'] conjI)
  with a show ?thesis by (rule conjI)
qed


section \<open>Sibling order under compute-at\<close>






section \<open>The invariant of the traversal loop\<close>

lemma next_stmts_edges:
  assumes "next_stmts h f rca s = Inr ns"
  shows "set ns = {t. edge h f s t}"
proof (cases s)
  case (SVal v)
  with assms show ?thesis
    by (auto simp: next_val_def origin_def split: if_splits option.splits)
next
  case (SExpr e)
  with assms show ?thesis
    by (auto simp: next_expr_def split: if_splits list.splits)
qed

lemma stack_ok_mono:
  "stack_ok h f V st \<Longrightarrow> V \<subseteq> V' \<Longrightarrow> stack_ok h f V' st"
  by (induction h f V st rule: stack_ok.induct) auto

lemma closed_order_snoc:
  assumes "closed_order h f tr" and "\<forall>t. edge h f x t \<longrightarrow> t \<in> set tr"
  shows "closed_order h f (tr @ [x])"
  unfolding closed_order_def
proof (intro allI impI)
  fix i t assume i: "i < length (tr @ [x])" and e: "edge h f ((tr @ [x]) ! i) t"
  show "t \<in> set (take i (tr @ [x]))"
  proof (cases "i < length tr")
    case True
    with e assms(1) show ?thesis by (auto simp: closed_order_def nth_append)
  next
    case False
    with i have "i = length tr" by simp
    with e assms(2) show ?thesis by simp
  qed
qed

lemma closed_order_split:
  assumes "closed_order h f tr" and "tr = pre @ x # post" and "edge h f x t"
  shows "t \<in> set pre"
proof -
  have "length pre < length tr" "tr ! length pre = x" "take (length pre) tr = pre"
    using assms(2) by auto
  with assms(1,3) show ?thesis unfolding closed_order_def by metis
qed

lemma reachable_step:
  "s \<in> reachable h f from \<Longrightarrow> edge h f s t \<Longrightarrow> t \<in> reachable h f from"
  unfolding reachable_def by (auto intro: rtrancl_into_rtrancl)

lemma reachable_from: "v \<in> set from \<Longrightarrow> SVal v \<in> reachable h f from"
  unfolding reachable_def by auto

lemma reachable_least:
  assumes "SVal ` set from \<subseteq> S" and "\<forall>s \<in> S. \<forall>t. edge h f s t \<longrightarrow> t \<in> S"
  shows "reachable h f from \<subseteq> S"
proof
  fix t assume "t \<in> reachable h f from"
  then obtain s where s: "s \<in> SVal ` set from" and r: "(s, t) \<in> {(s, t). edge h f s t}\<^sup>*"
    unfolding reachable_def by auto
  from r s assms show "t \<in> S"
    by (induction rule: rtrancl_induct) auto
qed

lemma trav_inv_init: "trav_inv h f from (init_trav from)"
  by (auto simp: trav_inv_def init_trav_def closed_order_def reachable_from)


lemma trav_invD:
  assumes "trav_inv h f from s"
  shows "visited s = set (handled s)"
    and "closed_order h f (handled s)"
    and "stack_ok h f (visited s) (stmt_stack s)"
    and "all_inputs_visited s \<Longrightarrow> stmt_stack s = (x # others) # below \<Longrightarrow> edge h f x t \<Longrightarrow>
           t \<in> visited s"
    and "F \<in> set (stmt_stack s) \<Longrightarrow> set F \<subseteq> reachable h f from"
    and "set (handled s) \<subseteq> reachable h f from"
    and "SVal ` set from \<subseteq> visited s \<union> (if stmt_stack s = [] then {} else set (last (stmt_stack s)))"
proof -
  from assms have a: "visited s = set (handled s)" unfolding trav_inv_def by (rule conjunct1)
  from assms have b: "closed_order h f (handled s)" unfolding trav_inv_def
    by (elim conjE)
  from assms have c: "stack_ok h f (visited s) (stmt_stack s)" unfolding trav_inv_def
    by (elim conjE)
  from assms have d: "all_inputs_visited s \<longrightarrow>
        (\<forall>x others below. stmt_stack s = (x # others) # below \<longrightarrow>
           (\<forall>t. edge h f x t \<longrightarrow> t \<in> visited s))" unfolding trav_inv_def
    by (elim conjE)
  from assms have e: "\<forall>F \<in> set (stmt_stack s). set F \<subseteq> reachable h f from" unfolding trav_inv_def
    by (elim conjE)
  from assms have g: "set (handled s) \<subseteq> reachable h f from" unfolding trav_inv_def
    by (elim conjE)
  from assms have i: "SVal ` set from \<subseteq> visited s \<union> (if stmt_stack s = [] then {} else set (last (stmt_stack s)))" unfolding trav_inv_def
    by (elim conjE)
  show "visited s = set (handled s)" by (rule a)
  show "closed_order h f (handled s)" by (rule b)
  show "stack_ok h f (visited s) (stmt_stack s)" by (rule c)
  show "all_inputs_visited s \<Longrightarrow> stmt_stack s = (x # others) # below \<Longrightarrow> edge h f x t \<Longrightarrow>
           t \<in> visited s" using d by blast
  show "F \<in> set (stmt_stack s) \<Longrightarrow> set F \<subseteq> reachable h f from" using e by blast
  show "set (handled s) \<subseteq> reachable h f from" by (rule g)
  show "SVal ` set from \<subseteq> visited s \<union> (if stmt_stack s = [] then {} else set (last (stmt_stack s)))"
    by (rule i)
qed

lemma trav_invI:
  assumes "visited s = set (handled s)"
    and "closed_order h f (handled s)"
    and "stack_ok h f (visited s) (stmt_stack s)"
    and "\<And>x others below t. all_inputs_visited s \<Longrightarrow> stmt_stack s = (x # others) # below \<Longrightarrow>
           edge h f x t \<Longrightarrow> t \<in> visited s"
    and "\<And>F. F \<in> set (stmt_stack s) \<Longrightarrow> set F \<subseteq> reachable h f from"
    and "set (handled s) \<subseteq> reachable h f from"
    and "SVal ` set from \<subseteq> visited s \<union> (if stmt_stack s = [] then {} else set (last (stmt_stack s)))"
  shows "trav_inv h f from s"
  unfolding trav_inv_def
proof (intro conjI impI allI ballI)
  show "visited s = set (handled s)" by (rule assms(1))
  show "closed_order h f (handled s)" by (rule assms(2))
  show "stack_ok h f (visited s) (stmt_stack s)" by (rule assms(3))
  show "t \<in> visited s" if "all_inputs_visited s" "stmt_stack s = (x # others) # below" "edge h f x t"
    for x others below t using that by (rule assms(4))
  show "set F \<subseteq> reachable h f from" if "F \<in> set (stmt_stack s)" for F
    using that by (rule assms(5))
  show "set (handled s) \<subseteq> reachable h f from" by (rule assms(6))
  show "SVal ` set from \<subseteq> visited s \<union> (if stmt_stack s = [] then {} else set (last (stmt_stack s)))"
    by (rule assms(7))
qed


lemma trav_inv_pop:
  assumes inv: "trav_inv h f from s" and st: "stmt_stack s = [] # below"
  shows "trav_inv h f from (s\<lparr>stmt_stack := below, all_inputs_visited := True\<rparr>)"
proof (rule trav_invI)
  let ?s' = "s\<lparr>stmt_stack := below, all_inputs_visited := True\<rparr>"
  note d = trav_invD[OF inv]
  from d(3) st have ok: "stack_ok h f (visited s) ([] # below)" by simp
  show "visited ?s' = set (handled ?s')" using d(1) by simp
  show "closed_order h f (handled ?s')" using d(2) by simp
  show "stack_ok h f (visited ?s') (stmt_stack ?s')" using ok by (cases below) auto
  show "t \<in> visited ?s'" if "stmt_stack ?s' = (x # others) # b" "edge h f x t" for x others b t
    using ok that by auto
  show "set F \<subseteq> reachable h f from" if "F \<in> set (stmt_stack ?s')" for F
    using d(5)[of F] that st by simp
  show "set (handled ?s') \<subseteq> reachable h f from" using d(6) by simp
  show "SVal ` set from \<subseteq> visited ?s' \<union>
          (if stmt_stack ?s' = [] then {} else set (last (stmt_stack ?s')))"
    using d(7) st by (auto split: if_splits)
qed

lemma trav_inv_handle:
  assumes inv: "trav_inv h f from s" and st: "stmt_stack s = (x # others) # below"
    and flag: "all_inputs_visited s"
  shows "trav_inv h f from (s\<lparr>stmt_stack := others # below, visited := insert x (visited s),
           all_inputs_visited := False, handled := handled s @ [x]\<rparr>)"
proof (rule trav_invI)
  let ?s' = "s\<lparr>stmt_stack := others # below, visited := insert x (visited s),
           all_inputs_visited := False, handled := handled s @ [x]\<rparr>"
  note d = trav_invD[OF inv]
  from d(3) st have ok: "stack_ok h f (visited s) ((x # others) # below)" by simp
  have ex: "\<forall>t. edge h f x t \<longrightarrow> t \<in> set (handled s)"
    using d(4)[OF flag st] d(1) by simp
  show "visited ?s' = set (handled ?s')" using d(1) by simp
  show "closed_order h f (handled ?s')"
    using closed_order_snoc[OF d(2) ex] by simp
  show "stack_ok h f (visited ?s') (stmt_stack ?s')"
  proof (cases below)
    case Nil
    then show ?thesis by simp
  next
    case (Cons G rest)
    with ok have "stack_ok h f (visited s) (G # rest)" by simp
    then have "stack_ok h f (insert x (visited s)) (G # rest)"
      by (rule stack_ok_mono) auto
    with ok Cons show ?thesis by auto
  qed
  show "t \<in> visited ?s'"
    if "all_inputs_visited ?s'" for t
    using that by simp
  show "set F \<subseteq> reachable h f from" if "F \<in> set (stmt_stack ?s')" for F
  proof -
    from d(5)[of "x # others"] st have "set (x # others) \<subseteq> reachable h f from" by simp
    moreover have "set G \<subseteq> reachable h f from" if "G \<in> set below" for G
      using d(5)[of G] that st by simp
    ultimately show ?thesis using that by auto
  qed
  show "set (handled ?s') \<subseteq> reachable h f from"
    using d(6) d(5)[of "x # others"] st by simp
  show "SVal ` set from \<subseteq> visited ?s' \<union>
          (if stmt_stack ?s' = [] then {} else set (last (stmt_stack ?s')))"
    using d(7) st by (cases below) auto
qed

lemma trav_inv_flag:
  assumes inv: "trav_inv h f from s" and st: "stmt_stack s = (x # others) # below"
    and nx: "next_stmts h f rca x = Inr ns"
    and em: "(if ap then ns else remove_visited ns (visited s)) = []"
  shows "trav_inv h f from (s\<lparr>all_inputs_visited := True\<rparr>)"
proof (rule trav_invI)
  let ?s' = "s\<lparr>all_inputs_visited := True\<rparr>"
  note d = trav_invD[OF inv]
  have "set ns \<subseteq> visited s"
    using em by (auto simp: remove_visited_def filter_empty_conv split: if_splits)
  with next_stmts_edges[OF nx] have ex: "\<forall>t. edge h f x t \<longrightarrow> t \<in> visited s" by auto
  show "visited ?s' = set (handled ?s')" using d(1) by simp
  show "closed_order h f (handled ?s')" using d(2) by simp
  show "stack_ok h f (visited ?s') (stmt_stack ?s')" using d(3) by simp
  show "t \<in> visited ?s'" if "stmt_stack ?s' = (y # o2) # b" "edge h f y t" for y o2 b t
    using ex that st by simp
  show "set F \<subseteq> reachable h f from" if "F \<in> set (stmt_stack ?s')" for F
    using d(5)[of F] that by simp
  show "set (handled ?s') \<subseteq> reachable h f from" using d(6) by simp
  show "SVal ` set from \<subseteq> visited ?s' \<union>
          (if stmt_stack ?s' = [] then {} else set (last (stmt_stack ?s')))"
    using d(7) by (auto split: if_splits)
qed

lemma trav_inv_push:
  assumes inv: "trav_inv h f from s" and st: "stmt_stack s = (x # others) # below"
    and nx: "next_stmts h f rca x = Inr ns"
    and ns': "ns' = (if ap then ns else remove_visited ns (visited s))"
  shows "trav_inv h f from (s\<lparr>stmt_stack := ns' # stmt_stack s, all_inputs_visited := False\<rparr>)"
proof (rule trav_invI)
  let ?s' = "s\<lparr>stmt_stack := ns' # stmt_stack s, all_inputs_visited := False\<rparr>"
  note d = trav_invD[OF inv]
  note ed = next_stmts_edges[OF nx]
  have sub: "set ns' \<subseteq> set ns" and cov: "set ns \<subseteq> visited s \<union> set ns'"
    using ns' by (auto simp: remove_visited_def)
  from d(3) st have ok: "stack_ok h f (visited s) ((x # others) # below)" by simp
  show "visited ?s' = set (handled ?s')" using d(1) by simp
  show "closed_order h f (handled ?s')" using d(2) by simp
  show "stack_ok h f (visited ?s') (stmt_stack ?s')"
    using ok sub cov ed st by auto
  show "t \<in> visited ?s'" if "all_inputs_visited ?s'" for t
    using that by simp
  show "set F \<subseteq> reachable h f from" if "F \<in> set (stmt_stack ?s')" for F
  proof (cases "F = ns'")
    case True
    from d(5)[of "x # others"] st have "x \<in> reachable h f from" by simp
    with ed sub True show ?thesis by (auto intro: reachable_step)
  next
    case False
    with that d(5)[of F] show ?thesis by simp
  qed
  show "set (handled ?s') \<subseteq> reachable h f from" using d(6) by simp
  show "SVal ` set from \<subseteq> visited ?s' \<union>
          (if stmt_stack ?s' = [] then {} else set (last (stmt_stack ?s')))"
    using d(7) st by simp
qed

lemma trav_inv_step:
  assumes inv: "trav_inv h f from s" and st: "traverse_step h f ap rca s = Inr s'"
  shows "trav_inv h f from s'"
proof (cases "stmt_stack s")
  case Nil
  with st inv show ?thesis by (simp add: traverse_step_def)
next
  case (Cons F below)
  show ?thesis
  proof (cases F)
    case Nil
    with Cons st have "s' = s\<lparr>stmt_stack := below, all_inputs_visited := True\<rparr>"
      by (simp add: traverse_step_def)
    with trav_inv_pop[OF inv] Cons Nil show ?thesis by simp
  next
    case (Cons x others)
    note F = this
    with \<open>stmt_stack s = F # below\<close> have stk: "stmt_stack s = (x # others) # below" by simp
    show ?thesis
    proof (cases "all_inputs_visited s")
      case True
      with stk st have "s' = s\<lparr>stmt_stack := others # below, visited := insert x (visited s),
           all_inputs_visited := False, handled := handled s @ [x]\<rparr>"
        by (simp add: traverse_step_def)
      with trav_inv_handle[OF inv stk True] show ?thesis by simp
    next
      case False
      with stk st obtain ns where nx: "next_stmts h f rca x = Inr ns"
        by (auto simp: traverse_step_def split: sum.splits)
      let ?ns' = "if ap then ns else remove_visited ns (visited s)"
      show ?thesis
      proof (cases "?ns' = []")
        case True
        with stk st False nx have "s' = s\<lparr>all_inputs_visited := True\<rparr>"
          by (simp add: traverse_step_def)
        with trav_inv_flag[OF inv stk nx True] show ?thesis by simp
      next
        case ne: False
        with stk st False nx
        have "s' = s\<lparr>stmt_stack := ?ns' # stmt_stack s, all_inputs_visited := False\<rparr>"
          by (simp add: traverse_step_def Let_def)
        with trav_inv_push[OF inv stk nx refl] show ?thesis by simp
      qed
    qed
  qed
qed

lemma trav_inv_loop:
  assumes "traverse_loop n h f ap rca s = Some (Inr s')" and "trav_inv h f from s"
  shows "trav_inv h f from s' \<and> stmt_stack s' = []"
  using assms
proof (induction n arbitrary: s)
  case 0
  then show ?case by (simp split: if_splits)
next
  case (Suc n)
  show ?case
  proof (cases "stmt_stack s = []")
    case True
    with Suc.prems show ?thesis by simp
  next
    case False
    with Suc.prems(1) obtain s1 where st: "traverse_step h f ap rca s = Inr s1"
      and lp: "traverse_loop n h f ap rca s1 = Some (Inr s')"
      by (auto split: sum.splits)
    from Suc.IH[OF lp trav_inv_step[OF Suc.prems(2) st]] show ?thesis .
  qed
qed

text \<open>What a traversal that returns has handled.\<close>

lemma traverseFrom_result:
  assumes "traverseFrom n h f from ap rca = Some (Inr tr)"
  shows "closed_order h f tr" and "set tr = reachable h f from"
proof -
  from assms obtain r where r: "traverse_loop n h f ap rca (init_trav from) = Some r"
    and m: "map_sum id handled r = Inr tr"
    by (auto simp: traverseFrom_def)
  from m obtain s' where "r = Inr s'" and tr: "tr = handled s'" by (cases r) auto
  with r have lp: "traverse_loop n h f ap rca (init_trav from) = Some (Inr s')" by simp
  from trav_inv_loop[OF lp trav_inv_init] have inv: "trav_inv h f from s'"
    and e: "stmt_stack s' = []" by simp_all
  note d = trav_invD[OF inv]
  from d(2) tr show "closed_order h f tr" by simp
  have sub: "set tr \<subseteq> reachable h f from" using d(6) tr by simp
  have "reachable h f from \<subseteq> set tr"
  proof (rule reachable_least)
    show "SVal ` set from \<subseteq> set tr" using d(7) d(1) e tr by simp
    show "\<forall>s \<in> set tr. \<forall>t. edge h f s t \<longrightarrow> t \<in> set tr"
    proof (intro ballI allI impI)
      fix s t assume "s \<in> set tr" and ed: "edge h f s t"
      then obtain pre post where "tr = pre @ s # post" by (auto simp: in_set_conv_decomp)
      from closed_order_split[OF _ this ed] d(2) tr have "t \<in> set pre"
        by simp
      with \<open>tr = pre @ s # post\<close> show "t \<in> set tr" by simp
    qed
  qed
  with sub show "set tr = reachable h f from" by blast
qed


lemma exprs_of_append: "exprs_of (a @ b) = exprs_of a @ exprs_of b"
  by (induction a rule: exprs_of.induct) auto

lemma set_exprs_of: "set (exprs_of tr) = {e. SExpr e \<in> set tr}"
  by (induction tr rule: exprs_of.induct) auto

lemma exprs_of_split:
  assumes "exprs_of tr = pre @ e # post"
  shows "\<exists>tpre tpost. tr = tpre @ SExpr e # tpost \<and> exprs_of tpre = pre \<and> exprs_of tpost = post"
  using assms
proof (induction tr arbitrary: pre rule: exprs_of.induct)
  case 1
  then show ?case by simp
next
  case (2 x rest)
  show ?case
  proof (cases pre)
    case Nil
    with "2.prems" have "x = e" "exprs_of rest = post" by simp_all
    then have "SExpr x # rest = [] @ SExpr e # rest \<and> exprs_of [] = pre \<and> exprs_of rest = post"
      using Nil by simp
    then show ?thesis by blast
  next
    case (Cons y pre')
    with "2.prems" have y: "y = x" and r: "exprs_of rest = pre' @ e # post" by simp_all
    from "2.IH"[OF r] obtain tpre tpost where
      "rest = tpre @ SExpr e # tpost" "exprs_of tpre = pre'" "exprs_of tpost = post" by blast
    then have "SExpr x # rest = (SExpr x # tpre) @ SExpr e # tpost \<and>
               exprs_of (SExpr x # tpre) = pre \<and> exprs_of tpost = post"
      using Cons y by simp
    then show ?thesis by blast
  qed
next
  case (3 v rest)
  from "3.prems" have r: "exprs_of rest = pre @ e # post" by simp
  from "3.IH"[OF r] obtain tpre tpost where
    "rest = tpre @ SExpr e # tpost" "exprs_of tpre = pre" "exprs_of tpost = post" by blast
  then have "SVal v # rest = (SVal v # tpre) @ SExpr e # tpost \<and>
             exprs_of (SVal v # tpre) = pre \<and> exprs_of tpost = post"
    by simp
  then show ?case by blast
qed

lemma closed_order_Nil: "closed_order h f []"
  by (simp add: closed_order_def)

text \<open>The result of \<open>exprs\<close> lists the expressions of a sequence in closed order.\<close>

lemma traverse_impl_trace:
  assumes "traverse_impl n iter h f fo bf ap rca = Some (Inr tr)"
  shows "closed_order h f tr"
proof -
  have c: "closed_order h f tr" if "traverseFrom n h f from ap rca = Some (Inr tr)" for "from"
    using traverseFrom_result(1)[OF that] .
  from assms show ?thesis
    by (auto simp: traverse_impl_def Let_def closed_order_Nil c
        split: if_splits option.splits sum.splits)
qed

lemma exprs_trace:
  assumes "exprs n iter h f fo bf rca = Some (Inr es)"
  obtains tr where "es = exprs_of tr" and "closed_order h f tr"
    and "traverse_impl n iter h f fo bf False rca = Some (Inr tr)"
proof -
  from assms obtain r where r: "traverse_impl n iter h f fo bf False rca = Some r"
    and m: "map_sum id exprs_of r = Inr es"
    by (auto simp: exprs_def ExprSort_getExprs_def traverse_def split: if_splits)
  from m obtain tr where "r = Inr tr" and es: "es = exprs_of tr" by (cases r) auto
  with r have t: "traverse_impl n iter h f fo bf False rca = Some (Inr tr)" by simp
  from that[OF es traverse_impl_trace[OF t] t] show ?thesis .
qed


section \<open>Termination of the traversal on acyclic fusions\<close>

lemma set_succs: "set (succs h f s) = {t. edge h f s t}"
  by (cases s) (auto split: option.splits)

lemma next_stmts_succs:
  assumes "next_stmts h f rca s = Inr ns"
  shows "inFusion h f s" and "mset ns = mset (succs h f s)"
proof -
  show "inFusion h f s"
    using assms
    by (cases s) (auto simp: next_val_def origin_def next_expr_def split: if_splits)
  show "mset ns = mset (succs h f s)"
  proof (cases s)
    case (SVal v)
    with assms show ?thesis
      by (auto simp: next_val_def origin_def split: if_splits option.splits)
  next
    case (SExpr e)
    with assms show ?thesis
      by (auto simp: next_expr_def split: if_splits list.splits)
  qed
qed

lemma cost_ge3: "3 \<le> cost h f k s"
  by (cases k) simp_all

lemma cost_mono: "k \<le> k' \<Longrightarrow> cost h f k s \<le> cost h f k' s"
proof (induction k arbitrary: k' s)
  case 0
  then show ?case by (simp add: cost_ge3)
next
  case (Suc k)
  then obtain j where k': "k' = Suc j" and le: "k \<le> j" by (cases k') auto
  have "sum_list (map (cost h f k) (succs h f s)) \<le> sum_list (map (cost h f j) (succs h f s))"
    by (rule sum_list_mono) (rule Suc.IH[OF le])
  then show ?case by (simp add: k')
qed

lemma work_unfold:
  assumes rk: "ranked h f rk" and inf: "inFusion h f s"
  shows "3 + sum_list (map (work h f rk) (succs h f s)) \<le> work h f rk s"
proof (cases "succs h f s = []")
  case True
  then show ?thesis by (simp add: work_def cost_ge3)
next
  case False
  then obtain t where "t \<in> set (succs h f s)" by (cases "succs h f s") auto
  with rk inf have "rk t < rk s" by (auto simp: ranked_def set_succs)
  then obtain k where k: "rk s = Suc k" by (cases "rk s") auto
  have "sum_list (map (work h f rk) (succs h f s)) \<le> sum_list (map (cost h f k) (succs h f s))"
  proof (rule sum_list_mono)
    fix t assume "t \<in> set (succs h f s)"
    with rk inf have "rk t < rk s" by (auto simp: ranked_def set_succs)
    with k have "rk t \<le> k" by simp
    then show "work h f rk t \<le> cost h f k t" unfolding work_def by (rule cost_mono)
  qed
  then show ?thesis by (simp add: work_def k)
qed

lemma sum_list_filter_le: "sum_list (map (g::'a \<Rightarrow> nat) (filter P xs)) \<le> sum_list (map g xs)"
  by (induction xs) auto

lemma sum_list_mset_cong:
  "mset xs = mset ys \<Longrightarrow> sum_list (map (g::'a \<Rightarrow> nat) xs) = sum_list (map g ys)"
proof -
  assume "mset xs = mset ys"
  then have "sum_mset (image_mset g (mset xs)) = sum_mset (image_mset g (mset ys))" by simp
  then show ?thesis by (simp add: sum_mset_sum_list flip: mset_map)
qed

lemma traverse_step_decreases:
  assumes rk: "ranked h f rk" and ne: "stmt_stack s \<noteq> []"
    and st: "traverse_step h f ap rca s = Inr s'"
  shows "trav_measure h f rk s' < trav_measure h f rk s"
proof -
  from ne obtain F below where stk: "stmt_stack s = F # below" by (cases "stmt_stack s") auto
  show ?thesis
  proof (cases F)
    case Nil
    with stk st have s': "s' = s\<lparr>stmt_stack := below, all_inputs_visited := True\<rparr>"
      by (simp add: traverse_step_def)
    show ?thesis
      by (cases below) (simp_all add: s' trav_measure_def stk Nil frame_cost_def)
  next
    case (Cons x others)
    show ?thesis
    proof (cases "all_inputs_visited s")
      case True
      with stk Cons st have s': "s' = s\<lparr>stmt_stack := others # below,
           visited := insert x (visited s), all_inputs_visited := False,
           handled := handled s @ [x]\<rparr>"
        by (simp add: traverse_step_def)
      show ?thesis
        by (simp add: s' trav_measure_def stk Cons frame_cost_def True)
    next
      case False
      with stk Cons st obtain ns where nx: "next_stmts h f rca x = Inr ns"
        by (auto simp: traverse_step_def split: sum.splits)
      let ?ns' = "if ap then ns else remove_visited ns (visited s)"
      have "sum_list (map (work h f rk) ?ns') \<le> sum_list (map (work h f rk) ns)"
        by (simp add: remove_visited_def sum_list_filter_le)
      also have "\<dots> = sum_list (map (work h f rk) (succs h f x))"
        by (rule sum_list_mset_cong) (rule next_stmts_succs(2)[OF nx])
      finally have b: "3 + sum_list (map (work h f rk) ?ns') \<le> work h f rk x"
        using work_unfold[OF rk next_stmts_succs(1)[OF nx]] by simp
      show ?thesis
      proof (cases "?ns' = []")
        case True
        with stk Cons st False nx have s': "s' = s\<lparr>all_inputs_visited := True\<rparr>"
          by (simp add: traverse_step_def)
        from b show ?thesis
          by (simp add: s' trav_measure_def stk Cons frame_cost_def False)
      next
        case ne': False
        with stk Cons st False nx
        have s': "s' = s\<lparr>stmt_stack := ?ns' # stmt_stack s, all_inputs_visited := False\<rparr>"
          by (simp add: traverse_step_def Let_def)
        from b show ?thesis
          by (simp add: s' trav_measure_def stk Cons frame_cost_def False)
      qed
    qed
  qed
qed

lemma frame_cost_pos: "0 < frame_cost h f rk flag F"
  by (cases F) (simp_all add: frame_cost_def)

lemma trav_measure_pos: "stmt_stack s \<noteq> [] \<Longrightarrow> 0 < trav_measure h f rk s"
  by (cases "stmt_stack s") (simp_all add: trav_measure_def frame_cost_pos)

lemma traverse_loop_fuel:
  assumes rk: "ranked h f rk" and "trav_measure h f rk s \<le> n"
  shows "traverse_loop n h f ap rca s \<noteq> None"
  using assms(2)
proof (induction n arbitrary: s)
  case 0
  then have "stmt_stack s = []"
    using trav_measure_pos[of s h f rk] by auto
  then show ?case by simp
next
  case (Suc n)
  show ?case
  proof (cases "stmt_stack s = []")
    case True
    then show ?thesis by simp
  next
    case False
    show ?thesis
    proof (cases "traverse_step h f ap rca s")
      case (Inl err)
      with False show ?thesis by simp
    next
      case (Inr s')
      from traverse_step_decreases[OF rk False Inr] Suc.prems
      have "trav_measure h f rk s' \<le> n" by simp
      from Suc.IH[OF this] False Inr show ?thesis by simp
    qed
  qed
qed

lemma traverse_loop_more_fuel:
  "traverse_loop n h f ap rca s = Some r \<Longrightarrow> n \<le> m \<Longrightarrow> traverse_loop m h f ap rca s = Some r"
proof (induction n arbitrary: s m)
  case 0
  then show ?case by (cases m) (auto split: if_splits)
next
  case (Suc n)
  then obtain j where m: "m = Suc j" and le: "n \<le> j" by (cases m) auto
  show ?case
  proof (cases "stmt_stack s = []")
    case True
    with Suc.prems(1) show ?thesis by (simp add: m)
  next
    case False
    show ?thesis
    proof (cases "traverse_step h f ap rca s")
      case (Inl err)
      with False Suc.prems(1) show ?thesis by (auto simp: m)
    next
      case (Inr s')
      with False Suc.prems(1) have "traverse_loop n h f ap rca s' = Some r" by simp
      from Suc.IH[OF this le] False Inr show ?thesis by (simp add: m)
    qed
  qed
qed


lemma reachable_inFusion:
  assumes cl: "closed_fusion h f" and fr: "\<forall>v \<in> set from. inFusion h f (SVal v)"
  shows "reachable h f from \<subseteq> {s. inFusion h f s}"
proof (rule reachable_least)
  show "SVal ` set from \<subseteq> {s. inFusion h f s}" using fr by auto
  show "\<forall>s \<in> {s. inFusion h f s}. \<forall>t. edge h f s t \<longrightarrow> t \<in> {s. inFusion h f s}"
  proof (intro ballI allI impI)
    fix s t assume s: "s \<in> {s. inFusion h f s}" and e: "edge h f s t"
    show "t \<in> {s. inFusion h f s}"
    proof (cases s)
      case (SVal v)
      with e cl show ?thesis unfolding closed_fusion_def by auto
    next
      case (SExpr x)
      with e s cl show ?thesis unfolding closed_fusion_def by auto
    qed
  qed
qed

lemma next_stmts_ok:
  assumes "inFusion h f s" and "rca \<longrightarrow> single_outputs h f"
  shows "\<exists>ns. next_stmts h f rca s = Inr ns"
proof (cases s)
  case (SVal v)
  with assms(1) show ?thesis
    by (auto simp: next_val_def origin_def split: option.splits)
next
  case (SExpr e)
  show ?thesis
  proof (cases rca)
    case True
    with assms SExpr have "length (outputs (expr_at h e)) = 1"
      unfolding single_outputs_def by blast
    then obtain out where "outputs (expr_at h e) = [out]"
      by (cases "outputs (expr_at h e)") auto
    with assms(1) SExpr True show ?thesis by (simp add: next_expr_def)
  next
    case False
    with assms(1) SExpr show ?thesis by (simp add: next_expr_def)
  qed
qed

lemma traverse_step_ok:
  assumes inv: "trav_inv h f from s" and inf: "reachable h f from \<subseteq> {s. inFusion h f s}"
    and so: "rca \<longrightarrow> single_outputs h f"
  shows "\<exists>s'. traverse_step h f ap rca s = Inr s'"
proof (cases "stmt_stack s")
  case Nil
  then show ?thesis by (simp add: traverse_step_def)
next
  case (Cons F below)
  show ?thesis
  proof (cases F)
    case Nil
    with Cons show ?thesis by (simp add: traverse_step_def)
  next
    case (Cons x others)
    with \<open>stmt_stack s = F # below\<close> have stk: "stmt_stack s = (x # others) # below" by simp
    from trav_invD(5)[OF inv, of "x # others"] stk inf have "inFusion h f x" by auto
    from next_stmts_ok[OF this so] obtain ns where "next_stmts h f rca x = Inr ns" ..
    with stk show ?thesis by (simp add: traverse_step_def Let_def)
  qed
qed

lemma traverse_loop_total:
  assumes rk: "ranked h f rk" and inf: "reachable h f from \<subseteq> {s. inFusion h f s}"
    and so: "rca \<longrightarrow> single_outputs h f"
    and inv: "trav_inv h f from s" and m: "trav_measure h f rk s \<le> n"
  shows "\<exists>s'. traverse_loop n h f ap rca s = Some (Inr s')"
  using inv m
proof (induction n arbitrary: s)
  case 0
  then have "stmt_stack s = []"
    using trav_measure_pos[of s h f rk] by auto
  then show ?case by simp
next
  case (Suc n)
  show ?case
  proof (cases "stmt_stack s = []")
    case True
    then show ?thesis by simp
  next
    case False
    from traverse_step_ok[OF Suc.prems(1) inf so] obtain s1
      where st: "traverse_step h f ap rca s = Inr s1" ..
    from traverse_step_decreases[OF rk False st] Suc.prems(2)
    have "trav_measure h f rk s1 \<le> n" by simp
    from Suc.IH[OF trav_inv_step[OF Suc.prems(1) st] this] False st show ?thesis by simp
  qed
qed

text \<open>On a closed acyclic fusion the traversal returns, given enough fuel.\<close>

lemma traverseFrom_total:
  assumes rk: "ranked h f rk" and cl: "closed_fusion h f"
    and fr: "\<forall>v \<in> set from. inFusion h f (SVal v)"
    and so: "rca \<longrightarrow> single_outputs h f"
  shows "\<exists>n. \<forall>m \<ge> n. \<exists>tr. traverseFrom m h f from ap rca = Some (Inr tr)"
proof -
  let ?n = "trav_measure h f rk (init_trav from)"
  from traverse_loop_total[OF rk reachable_inFusion[OF cl fr] so trav_inv_init le_refl]
  obtain s' where lp: "traverse_loop ?n h f ap rca (init_trav from) = Some (Inr s')" ..
  have "\<exists>tr. traverseFrom m h f from ap rca = Some (Inr tr)" if "?n \<le> m" for m
    using traverse_loop_more_fuel[OF lp that] by (simp add: traverseFrom_def)
  then show ?thesis by blast
qed

lemma traverseFrom_more_fuel:
  "traverseFrom n h f from ap rca = Some r \<Longrightarrow> n \<le> m \<Longrightarrow> traverseFrom m h f from ap rca = Some r"
  using traverse_loop_more_fuel[of n h f ap rca "init_trav from" _ m]
  by (auto simp: traverseFrom_def)



text \<open>The test graph is closed and acyclic.\<close>


lemma closed_fusion_ts: "closed_fusion heap_ts (fusion_ts outs)"
  unfolding closed_fusion_def
  by (auto simp: fusion_ts_def empty_fusion_def heap_ts_def expr_node_def scalar_node_def
      split: if_splits)

lemma ranked_ts: "ranked heap_ts (fusion_ts outs) rank_ts"
  unfolding ranked_def
proof (intro allI impI)
  fix s t assume a: "inFusion heap_ts (fusion_ts outs) s \<and> edge heap_ts (fusion_ts outs) s t"
  show "rank_ts t < rank_ts s"
  proof (cases s)
    case (SVal v)
    with a show ?thesis
      by (auto simp: fusion_ts_def empty_fusion_def split: if_splits)
  next
    case (SExpr e)
    with a show ?thesis
      by (auto simp: fusion_ts_def empty_fusion_def heap_ts_def expr_node_def split: if_splits)
  qed
qed


section \<open>\<open>inputsOf\<close>\<close>




section \<open>Expressions reachable from the outputs\<close>

lemma first_pos_less: "x \<in> set tr \<Longrightarrow> first_pos x tr < length tr"
  by (induction tr) auto

lemma first_pos_nth: "x \<in> set tr \<Longrightarrow> tr ! first_pos x tr = x"
  by (induction tr) auto

lemma first_pos_le: "j < length tr \<Longrightarrow> tr ! j = x \<Longrightarrow> first_pos x tr \<le> j"
proof (induction tr arbitrary: j)
  case Nil
  then show ?case by simp
next
  case (Cons y ys)
  then show ?case by (cases j) auto
qed

lemma closed_order_rank:
  assumes co: "closed_order h f tr" and x: "x \<in> set tr" and e: "edge h f x t"
  shows "t \<in> set tr \<and> first_pos t tr < first_pos x tr"
proof -
  let ?i = "first_pos x tr"
  from co first_pos_less[OF x] first_pos_nth[OF x] e have "t \<in> set (take ?i tr)"
    unfolding closed_order_def by metis
  then obtain j where j: "j < length (take ?i tr)" and tj: "take ?i tr ! j = t"
    by (auto simp: in_set_conv_nth)
  then have "j < ?i" "j < length tr" "tr ! j = t" by auto
  with first_pos_le[of j tr t] show ?thesis by (auto intro: nth_mem)
qed

lemma closed_order_rank_rtrancl:
  assumes co: "closed_order h f tr" and x: "x \<in> set tr"
    and r: "(x, t) \<in> {(s, t). edge h f s t}\<^sup>*"
  shows "t \<in> set tr \<and> first_pos t tr \<le> first_pos x tr"
  using r
proof (induction rule: rtrancl_induct)
  case base
  with x show ?case by simp
next
  case (step y z)
  from step.hyps(2) have "edge h f y z" by simp
  from closed_order_rank[OF co _ this] step.IH show ?case by auto
qed

lemma reachable_rtrancl:
  "s \<in> reachable h f from \<Longrightarrow> (s, t) \<in> {(s, t). edge h f s t}\<^sup>* \<Longrightarrow> t \<in> reachable h f from"
  unfolding reachable_def by (auto intro: rtrancl_trans)

lemma reachable_mono:
  assumes "set xs \<subseteq> set ys"
  shows "reachable h f xs \<subseteq> reachable h f ys"
  using assms unfolding reachable_def by auto

text \<open>
  Every output is reachable from a terminating output, when the traversal from the
  outputs has returned.
\<close>

lemma terminating_outputs_cover:
  assumes co: "closed_order h f tr" and tr: "set tr = reachable h f outs"
    and T: "set ts = {out \<in> set outs. out \<notin> (\<Union>e \<in> set (exprs_of tr). set (inputs (expr_at h e)))}"
  shows "reachable h f ts = reachable h f outs"
proof
  show "reachable h f ts \<subseteq> reachable h f outs"
    by (rule reachable_mono) (use T in auto)
  have cover: "SVal out \<in> reachable h f ts" if "out \<in> set outs" "length tr - first_pos (SVal out) tr = k"
    for out k
    using that
  proof (induction k arbitrary: out rule: less_induct)
    case (less k)
    show ?case
    proof (cases "out \<in> set ts")
      case True
      then show ?thesis by (rule reachable_from)
    next
      case False
      with T less.prems(1) obtain e where e: "e \<in> set (exprs_of tr)"
        and i: "out \<in> set (inputs (expr_at h e))" by auto
      from e have etr: "SExpr e \<in> set tr" by (simp add: set_exprs_of)
      with tr obtain o2 where o2: "o2 \<in> set outs"
        and p: "(SVal o2, SExpr e) \<in> {(s, t). edge h f s t}\<^sup>*"
        unfolding reachable_def by auto
      from o2 tr have o2tr: "SVal o2 \<in> set tr" by (auto intro: reachable_from)
      from closed_order_rank_rtrancl[OF co o2tr p]
      have le: "first_pos (SExpr e) tr \<le> first_pos (SVal o2) tr" by simp
      from i have ed: "edge h f (SExpr e) (SVal out)" by simp
      from closed_order_rank[OF co etr ed]
      have lt: "first_pos (SVal out) tr < first_pos (SExpr e) tr" by simp
      from first_pos_less[OF o2tr] le lt less.prems(2)
      have "length tr - first_pos (SVal o2) tr < k" by simp
      from less.IH[OF this o2 refl] have "SVal o2 \<in> reachable h f ts" .
      from reachable_rtrancl[OF this p] have "SExpr e \<in> reachable h f ts" .
      from reachable_step[OF this ed] show ?thesis .
    qed
  qed
  show "reachable h f outs \<subseteq> reachable h f ts"
  proof (rule reachable_least)
    show "SVal ` set outs \<subseteq> reachable h f ts" using cover by auto
    show "\<forall>s \<in> reachable h f ts. \<forall>t. edge h f s t \<longrightarrow> t \<in> reachable h f ts"
      by (auto intro: reachable_step)
  qed
qed


lemma getTerminatingOutputs_Inr:
  assumes "getTerminatingOutputs n h f = Some (Inr T)"
  shows "\<exists>tr. traverseFrom n h f (fusion_outputs f) False False = Some (Inr tr) \<and>
           T = {out \<in> set (fusion_outputs f).
                  out \<notin> (\<Union>e \<in> set (exprs_of tr). set (inputs (expr_at h e)))}"
proof -
  from assms obtain r where r: "Exprs_getExprs n h f (fusion_outputs f) = Some r"
    and m: "map_sum id (\<lambda>exprs. let used_vals = (\<Union>expr \<in> set exprs. set (inputs (expr_at h expr)))
                    in {out \<in> set (fusion_outputs f). out \<notin> used_vals}) r = Inr T"
    by (auto simp: getTerminatingOutputs_def)
  from m obtain es where res: "r = Inr es"
    and T: "T = {out \<in> set (fusion_outputs f).
                  out \<notin> (\<Union>e \<in> set es. set (inputs (expr_at h e)))}"
    by (cases r) (auto simp: Let_def)
  from r res obtain r2 where r2: "traverseFrom n h f (fusion_outputs f) False False = Some r2"
    and m2: "map_sum id exprs_of r2 = Inr es"
    by (auto simp: Exprs_getExprs_def)
  from m2 obtain tr where "r2 = Inr tr" "es = exprs_of tr" by (cases r2) auto
  with r2 T show ?thesis by auto
qed

lemma exprs_from_outputs_unfold:
  "exprs n iter h f True False rca =
     (case getTerminatingOutputs n h f of
        None \<Rightarrow> None
      | Some (Inl err) \<Rightarrow> Some (Inl err)
      | Some (Inr term_outs) \<Rightarrow>
          if iter term_outs \<noteq> []
          then map_option (map_sum id exprs_of) (traverseFrom n h f (iter term_outs) False rca)
          else Some (Inr []))"
  by (simp add: exprs_def ExprSort_getExprs_def traverse_def traverse_impl_def Let_def
      split: option.splits sum.splits)

lemma exprs_from_outputs_set:
  assumes it: "\<forall>S. S \<subseteq> set (fusion_outputs f) \<longrightarrow> set (iter S) = S"
    and res: "exprs n iter h f True False rca = Some (Inr es)"
  shows "set es = {e. SExpr e \<in> reachable h f (fusion_outputs f)}"
proof -

  from res obtain T where gt: "getTerminatingOutputs n h f = Some (Inr T)"
    by (auto simp: exprs_from_outputs_unfold split: option.splits sum.splits)
  from getTerminatingOutputs_Inr[OF gt] obtain tr1
    where tr1: "traverseFrom n h f (fusion_outputs f) False False = Some (Inr tr1)"
      and T: "T = {out \<in> set (fusion_outputs f).
                  out \<notin> (\<Union>e \<in> set (exprs_of tr1). set (inputs (expr_at h e)))}" by blast
  from T have "T \<subseteq> set (fusion_outputs f)" by auto
  with it have ts: "set (iter T) = T" by blast
  note r1 = traverseFrom_result[OF tr1]
  from terminating_outputs_cover[OF r1 ts[unfolded T]] T
  have eq: "reachable h f (iter T) = reachable h f (fusion_outputs f)" by simp
  show ?thesis
  proof (cases "iter T = []")
    case True
    with res gt have "es = []" by (simp add: exprs_from_outputs_unfold)
    moreover from True eq have "reachable h f (fusion_outputs f) = {}"
      by (simp add: reachable_def)
    ultimately show ?thesis by simp
  next
    case False
    with res gt obtain r where r: "traverseFrom n h f (iter T) False rca = Some r"
      and m: "map_sum id exprs_of r = Inr es"
      by (auto simp: exprs_from_outputs_unfold)
    from m obtain tr2 where "r = Inr tr2" and es: "es = exprs_of tr2" by (cases r) auto
    with r have "traverseFrom n h f (iter T) False rca = Some (Inr tr2)" by simp
    from traverseFrom_result(2)[OF this] eq es show ?thesis by (simp add: set_exprs_of)
  qed
qed

lemma exprs_from_outputs_total:
  assumes it: "\<forall>S. S \<subseteq> set (fusion_outputs f) \<longrightarrow> set (iter S) = S"
    and a: "closed_fusion h f \<and> ranked h f rk \<and>
          (\<forall>v \<in> set (fusion_outputs f). inFusion h f (SVal v)) \<and>
          (rca \<longrightarrow> single_outputs h f)"
  shows "\<exists>m. \<forall>k \<ge> m. \<exists>es. exprs k iter h f True False rca = Some (Inr es)"
proof -
  from a have cl: "closed_fusion h f" and rk: "ranked h f rk"
    and fr: "\<forall>v \<in> set (fusion_outputs f). inFusion h f (SVal v)"
    and so: "rca \<longrightarrow> single_outputs h f" by simp_all
  from traverseFrom_total[OF rk cl fr, of False False] obtain m1 tr1
    where tr1: "traverseFrom m1 h f (fusion_outputs f) False False = Some (Inr tr1)" by auto
  let ?T = "{out \<in> set (fusion_outputs f).
                  out \<notin> (\<Union>e \<in> set (exprs_of tr1). set (inputs (expr_at h e)))}"
  have gt: "getTerminatingOutputs k h f = Some (Inr ?T)" if "m1 \<le> k" for k
    using traverseFrom_more_fuel[OF tr1 that]
    by (simp add: getTerminatingOutputs_def Exprs_getExprs_def Let_def)
  have "?T \<subseteq> set (fusion_outputs f)" by auto
  with it have ts: "set (iter ?T) = ?T" by blast
  with fr have fr2: "\<forall>v \<in> set (iter ?T). inFusion h f (SVal v)" by auto
  from traverseFrom_total[OF rk cl fr2 so, of False] obtain m2
    where m2: "\<forall>k \<ge> m2. \<exists>tr. traverseFrom k h f (iter ?T) False rca = Some (Inr tr)" by auto
  have "\<exists>es. exprs k iter h f True False rca = Some (Inr es)" if "max m1 m2 \<le> k" for k
  proof -
    from that have k1: "m1 \<le> k" and k2: "m2 \<le> k" by simp_all
    from m2 k2 obtain tr where "traverseFrom k h f (iter ?T) False rca = Some (Inr tr)" by blast
    with gt[OF k1] show ?thesis by (simp add: exprs_from_outputs_unfold)
  qed
  then show ?thesis by blast
qed

text \<open>
  C2. With \<open>fromOutputsOnly\<close>, and whatever order the set of terminating outputs is
  iterated in, the list returned by \<open>exprs\<close> holds exactly the expressions reachable
  backward from the registered outputs: every such expression is in it, and an
  expression not reachable from an output is not. On a closed acyclic Fusion whose
  outputs are registered Vals (with single-output expressions where
  \<open>respectComputeAt\<close> is set) the call returns, given enough iterations.
\<close>

theorem exprs_from_outputs_reachable:
  assumes it: "\<forall>S. S \<subseteq> set (fusion_outputs f) \<longrightarrow> set (iter S) = S"
  shows "(\<forall>es. exprs n iter h f True False rca = Some (Inr es) \<longrightarrow>
            set es = {e. SExpr e \<in> reachable h f (fusion_outputs f)}) \<and>
         (closed_fusion h f \<and> ranked h f rk \<and>
          (\<forall>v \<in> set (fusion_outputs f). inFusion h f (SVal v)) \<and>
          (rca \<longrightarrow> single_outputs h f) \<longrightarrow>
            (\<exists>m. \<forall>k \<ge> m. \<exists>es. exprs k iter h f True False rca = Some (Inr es)))"
proof (intro conjI allI impI)
  fix es assume "exprs n iter h f True False rca = Some (Inr es)"
  with it show "set es = {e. SExpr e \<in> reachable h f (fusion_outputs f)}"
    by (rule exprs_from_outputs_set)
next
  assume "closed_fusion h f \<and> ranked h f rk \<and>
          (\<forall>v \<in> set (fusion_outputs f). inFusion h f (SVal v)) \<and>
          (rca \<longrightarrow> single_outputs h f)"
  with it show "\<exists>m. \<forall>k \<ge> m. \<exists>es. exprs k iter h f True False rca = Some (Inr es)"
    by (rule exprs_from_outputs_total)
qed

theorem exprs_from_outputs_reachable_witness:
  "fusion_outputs (fusion_ts [2, 5]) = [2, 5] \<and>
   exprs 100 sorted_list_of_set heap_ts (fusion_ts [2, 5]) True False False
     = Some (Inr [10, 11, 12]) \<and>
   set [10, 11, 12] = {e. SExpr e \<in> reachable heap_ts (fusion_ts [2, 5])
                                    (fusion_outputs (fusion_ts [2, 5]))} \<and>
   closed_fusion heap_ts (fusion_ts [2, 5]) \<and> ranked heap_ts (fusion_ts [2, 5]) rank_ts \<and>
   inFusion heap_ts (fusion_ts [2, 5]) (SVal 2) \<and> inFusion heap_ts (fusion_ts [2, 5]) (SVal 5) \<and>
   (\<exists>m. \<forall>k \<ge> m. \<exists>es. exprs k sorted_list_of_set heap_ts (fusion_ts [2, 5]) True False False
                           = Some (Inr es))"
proof -
  have it: "\<forall>S. S \<subseteq> set (fusion_outputs (fusion_ts [2, 5])) \<longrightarrow> set (sorted_list_of_set S) = S"
  proof (intro allI impI)
    fix S :: "nat set" assume "S \<subseteq> set (fusion_outputs (fusion_ts [2, 5]))"
    then have "finite S" by (rule finite_subset) simp
    then show "set (sorted_list_of_set S) = S" by simp
  qed
  note t = exprs_from_outputs_reachable[OF it, of 100 heap_ts False rank_ts]
  have run: "exprs 100 sorted_list_of_set heap_ts (fusion_ts [2, 5]) True False False
     = Some (Inr [10, 11, 12])"
    by code_simp
  from t[THEN conjunct1, rule_format, OF run]
  have a: "set [10, 11, 12] = {e. SExpr e \<in> reachable heap_ts (fusion_ts [2, 5])
                                    (fusion_outputs (fusion_ts [2, 5]))}" .
  have fr: "\<forall>v \<in> set (fusion_outputs (fusion_ts [2, 5])). inFusion heap_ts (fusion_ts [2, 5]) (SVal v)"
    by (simp add: fusion_ts_def empty_fusion_def heap_ts_def scalar_node_def)
  have b: "\<exists>m. \<forall>k \<ge> m. \<exists>es. exprs k sorted_list_of_set heap_ts (fusion_ts [2, 5]) True False False
                           = Some (Inr es)"
    by (rule t[THEN conjunct2, rule_format]) (intro conjI closed_fusion_ts ranked_ts fr, simp)
  have outs: "fusion_outputs (fusion_ts [2, 5]) = [2, 5]"
    by (simp add: fusion_ts_def empty_fusion_def)
  from fr have f2: "inFusion heap_ts (fusion_ts [2, 5]) (SVal 2)"
    and f5: "inFusion heap_ts (fusion_ts [2, 5]) (SVal 5)"
    unfolding outs by simp_all
  show ?thesis
    by (intro conjI outs run a closed_fusion_ts ranked_ts f2 f5 b)
qed


section \<open>Topological order of \<open>exprs\<close>\<close>

text \<open>Whatever is on the stack is handled before the loop ends.\<close>

lemma traverse_step_keeps:
  assumes st: "traverse_step h f ap rca s = Inr s1"
  shows "set (handled s) \<subseteq> set (handled s1)"
    and "F \<in> set (stmt_stack s) \<Longrightarrow> set F \<subseteq> set (handled s1) \<union> \<Union>(set ` set (stmt_stack s1))"
proof -
  have "set (handled s) \<subseteq> set (handled s1) \<and>
        (\<forall>F \<in> set (stmt_stack s). set F \<subseteq> set (handled s1) \<union> \<Union>(set ` set (stmt_stack s1)))"
  proof (cases "stmt_stack s")
    case Nil
    with st show ?thesis by (simp add: traverse_step_def)
  next
    case (Cons G below)
    show ?thesis
    proof (cases G)
      case Nil
      with Cons st have "s1 = s\<lparr>stmt_stack := below, all_inputs_visited := True\<rparr>"
        by (simp add: traverse_step_def)
      with Cons Nil show ?thesis by auto
    next
      case (Cons x others)
      note G = this
      show ?thesis
      proof (cases "all_inputs_visited s")
        case True
        with \<open>stmt_stack s = G # below\<close> G st
        have "s1 = s\<lparr>stmt_stack := others # below, visited := insert x (visited s),
           all_inputs_visited := False, handled := handled s @ [x]\<rparr>"
          by (simp add: traverse_step_def)
        with \<open>stmt_stack s = G # below\<close> G show ?thesis by auto
      next
        case False
        with \<open>stmt_stack s = G # below\<close> G st obtain ns where
          "s1 = s\<lparr>all_inputs_visited := True\<rparr> \<or>
           s1 = s\<lparr>stmt_stack := ns # stmt_stack s, all_inputs_visited := False\<rparr>"
          by (auto simp: traverse_step_def Let_def split: sum.splits if_splits)
        then show ?thesis by auto
      qed
    qed
  qed
  then show "set (handled s) \<subseteq> set (handled s1)"
    and "F \<in> set (stmt_stack s) \<Longrightarrow> set F \<subseteq> set (handled s1) \<union> \<Union>(set ` set (stmt_stack s1))"
    by blast+
qed

lemma traverse_loop_handles_stack:
  assumes "traverse_loop n h f ap rca s = Some (Inr s')"
  shows "set (handled s) \<subseteq> set (handled s') \<and>
         (\<forall>F \<in> set (stmt_stack s). set F \<subseteq> set (handled s'))"
  using assms
proof (induction n arbitrary: s)
  case 0
  then show ?case by (auto split: if_splits)
next
  case (Suc n)
  show ?case
  proof (cases "stmt_stack s = []")
    case True
    with Suc.prems show ?thesis by auto
  next
    case False
    with Suc.prems obtain s1 where st: "traverse_step h f ap rca s = Inr s1"
      and lp: "traverse_loop n h f ap rca s1 = Some (Inr s')"
      by (auto split: sum.splits)
    from Suc.IH[OF lp] traverse_step_keeps[OF st] show ?thesis by blast
  qed
qed

text \<open>
  In a closed sequence that holds the statements of the stack, a statement of a frame
  occurs first before the head of every frame below.
\<close>

lemma stack_heads_ranked:
  assumes "stack_ok h f V (F # below)" and "y \<in> set F"
    and "closed_order h f T" and "\<forall>G \<in> set below. set G \<subseteq> set T"
  shows "\<forall>G \<in> set below. first_pos y T < first_pos (hd G) T"
  using assms(1,2,4)
proof (induction below arbitrary: F y)
  case Nil
  then show ?case by simp
next
  case (Cons G rest)
  from Cons.prems(1) have ne: "G \<noteq> []" and ed: "\<forall>t \<in> set F. edge h f (hd G) t"
    and ok: "stack_ok h f V (G # rest)" by simp_all
  from ne have hG: "hd G \<in> set G" by simp
  with Cons.prems(3) have hT: "hd G \<in> set T" by auto
  from ed Cons.prems(2) have "edge h f (hd G) y" by blast
  from closed_order_rank[OF assms(3) hT this] have lt: "first_pos y T < first_pos (hd G) T" by simp
  from Cons.IH[OF ok hG] Cons.prems(3)
  have "\<forall>G' \<in> set rest. first_pos (hd G) T < first_pos (hd G') T" by simp
  with lt show ?case by auto
qed

lemma exprs_once_step:
  assumes inv: "trav_inv h f from s" and once: "exprs_once s"
    and st: "traverse_step h f False rca s = Inr s1"
    and co: "closed_order h f T" and sub: "\<forall>F \<in> set (stmt_stack s). set F \<subseteq> set T"
  shows "exprs_once s1"
proof (cases "stmt_stack s")
  case Nil
  with st once show ?thesis by (simp add: traverse_step_def)
next
  case (Cons G below)
  note stk = this
  note d = trav_invD[OF inv]
  from once have dist: "distinct (exprs_of (handled s))"
    and fr: "\<And>F e. F \<in> set (stmt_stack s) \<Longrightarrow> SExpr e \<in> set F \<Longrightarrow>
               F = [SExpr e] \<and> SExpr e \<notin> visited s"
    unfolding exprs_once_def by blast+
  show ?thesis
  proof (cases G)
    case Nil
    with stk st have "s1 = s\<lparr>stmt_stack := below, all_inputs_visited := True\<rparr>"
      by (simp add: traverse_step_def)
    with dist fr stk show ?thesis unfolding exprs_once_def by auto
  next
    case (Cons x others)
    note G = this
    show ?thesis
    proof (cases "all_inputs_visited s")
      case True
      with stk G st
      have s1: "s1 = s\<lparr>stmt_stack := others # below, visited := insert x (visited s),
           all_inputs_visited := False, handled := handled s @ [x]\<rparr>"
        by (simp add: traverse_step_def)
      show ?thesis
      proof (cases x)
        case (SVal v)
        have no: "SExpr e \<notin> set others" for e
          using fr[of "x # others" e] stk G SVal by auto
        have "F = [SExpr e] \<and> SExpr e \<notin> insert x (visited s)"
          if "F \<in> set (others # below)" "SExpr e \<in> set F" for F e
        proof -
          from that no have "F \<in> set below" by auto
          with fr[of F e] that(2) stk SVal show ?thesis by auto
        qed
        with dist SVal show ?thesis
          unfolding exprs_once_def s1 by (auto simp: exprs_of_append)
      next
        case (SExpr e0)
        from fr[of "x # others" e0] stk G SExpr
        have o: "others = []" and nv: "SExpr e0 \<notin> visited s" by auto
        from d(3) stk G have ok: "stack_ok h f (visited s) ((x # others) # below)" by simp
        from sub stk have subb: "\<forall>F \<in> set below. set F \<subseteq> set T" by simp
        from stack_heads_ranked[OF ok _ co subb, of x]
        have rk: "\<forall>F \<in> set below. first_pos x T < first_pos (hd F) T" by simp
        have "F = [SExpr e] \<and> SExpr e \<notin> insert x (visited s)"
          if "F \<in> set (others # below)" "SExpr e \<in> set F" for F e
        proof -
          from that o have Fb: "F \<in> set below" by auto
          with fr[of F e] that(2) stk have F: "F = [SExpr e]" and "SExpr e \<notin> visited s" by auto
          moreover from rk Fb F have "x \<noteq> SExpr e" by auto
          ultimately show ?thesis by auto
        qed
        moreover from nv d(1) have "e0 \<notin> set (exprs_of (handled s))"
          by (simp add: set_exprs_of)
        ultimately show ?thesis
          using dist SExpr unfolding exprs_once_def s1 by (auto simp: exprs_of_append)
      qed
    next
      case False
      with stk G st obtain ns where nx: "next_stmts h f rca x = Inr ns"
        by (auto simp: traverse_step_def split: sum.splits)
      let ?ns' = "remove_visited ns (visited s)"
      show ?thesis
      proof (cases "?ns' = []")
        case True
        with stk G st False nx have "s1 = s\<lparr>all_inputs_visited := True\<rparr>"
          by (simp add: traverse_step_def)
        with dist fr show ?thesis unfolding exprs_once_def by auto
      next
        case ne: False
        with stk G st False nx
        have s1: "s1 = s\<lparr>stmt_stack := ?ns' # stmt_stack s, all_inputs_visited := False\<rparr>"
          by (simp add: traverse_step_def Let_def)
        have new: "?ns' = [SExpr e] \<and> SExpr e \<notin> visited s" if "SExpr e \<in> set ?ns'" for e
        proof (cases x)
          case (SVal v)
          with nx have "ns = [] \<or> (\<exists>e'. ns = [SExpr e'])"
            by (auto simp: next_val_def origin_def split: if_splits option.splits)
          with that show ?thesis by (auto simp: remove_visited_def split: if_splits)
        next
          case (SExpr e')
          with nx have "set ns \<subseteq> range SVal"
            by (auto simp: next_expr_def split: if_splits list.splits)
          with that show ?thesis by (auto simp: remove_visited_def)
        qed
        have "F = [SExpr e] \<and> SExpr e \<notin> visited s"
          if "F \<in> set (?ns' # stmt_stack s)" "SExpr e \<in> set F" for F e
          using that new[of e] fr[of F e] by auto
        with dist show ?thesis unfolding exprs_once_def s1 by auto
      qed
    qed
  qed
qed

lemma exprs_once_loop:
  assumes "traverse_loop n h f False rca s = Some (Inr s')"
    and "trav_inv h f from s" and "exprs_once s"
  shows "exprs_once s'"
  using assms
proof (induction n arbitrary: s)
  case 0
  then show ?case by (simp split: if_splits)
next
  case (Suc n)
  show ?case
  proof (cases "stmt_stack s = []")
    case True
    with Suc.prems show ?thesis by simp
  next
    case False
    with Suc.prems(1) obtain s1 where st: "traverse_step h f False rca s = Inr s1"
      and lp: "traverse_loop n h f False rca s1 = Some (Inr s')"
      by (auto split: sum.splits)
    note inv1 = trav_inv_step[OF Suc.prems(2) st]
    from trav_inv_loop[OF lp inv1] have "trav_inv h f from s'" by simp
    from trav_invD(2)[OF this] have co: "closed_order h f (handled s')" .
    from traverse_loop_handles_stack[OF Suc.prems(1)]
    have sub: "\<forall>F \<in> set (stmt_stack s). set F \<subseteq> set (handled s')" by simp
    from exprs_once_step[OF Suc.prems(2,3) st co sub] have "exprs_once s1" .
    from Suc.IH[OF lp inv1 this] show ?thesis .
  qed
qed

lemma traverseFrom_distinct_exprs:
  assumes "traverseFrom n h f from False rca = Some (Inr tr)"
  shows "distinct (exprs_of tr)"
proof -
  from assms obtain r where r: "traverse_loop n h f False rca (init_trav from) = Some r"
    and m: "map_sum id handled r = Inr tr"
    by (auto simp: traverseFrom_def)
  from m obtain s' where "r = Inr s'" and tr: "tr = handled s'" by (cases r) auto
  with r have lp: "traverse_loop n h f False rca (init_trav from) = Some (Inr s')" by simp
  have "exprs_once (init_trav from)"
    by (auto simp: exprs_once_def init_trav_def)
  from exprs_once_loop[OF lp trav_inv_init this] tr show ?thesis
    by (simp add: exprs_once_def)
qed

lemma traverse_impl_distinct:
  assumes "traverse_impl n iter h f fo bf False rca = Some (Inr tr)"
  shows "distinct (exprs_of tr)"
proof -
  have c: "distinct (exprs_of tr)" if "traverseFrom n h f from False rca = Some (Inr tr)" for "from"
    using traverseFrom_distinct_exprs[OF that] .
  from assms show ?thesis
    by (auto simp: traverse_impl_def Let_def c
        split: if_splits option.splits sum.splits)
qed

text \<open>
  C1. Whatever the flags, when \<open>exprs\<close> returns a list, no expression occurs twice in it,
  and when \<open>e1\<close> is the origin of a Val that \<open>e2\<close> reads, \<open>e1\<close> occurs in the part of
  the list before \<open>e2\<close>: \<open>e1\<close> appears strictly before \<open>e2\<close>.
\<close>

theorem exprs_topological_order:
  assumes res: "exprs n iter h f from_outputs_only breadth_first respect_compute_at = Some (Inr es)"
    and prod: "origin_map f v = Some e1"
    and cons: "v \<in> set (inputs (expr_at h e2))"
    and occ: "es = pre @ e2 # post"
  shows "e1 \<in> set pre \<and> distinct es"
proof -
  from res obtain tr where es: "es = exprs_of tr" and co: "closed_order h f tr"
    and ti: "traverse_impl n iter h f from_outputs_only breadth_first False respect_compute_at
               = Some (Inr tr)"
    by (rule exprs_trace)
  from es occ obtain tpre tpost where tr: "tr = tpre @ SExpr e2 # tpost"
    and pre: "exprs_of tpre = pre"
    using exprs_of_split[of tr pre e2 post] by auto
  from cons have "edge h f (SExpr e2) (SVal v)" by simp
  from closed_order_split[OF co tr this] have "SVal v \<in> set tpre" .
  then obtain a b where tpre: "tpre = a @ SVal v # b" by (auto simp: in_set_conv_decomp)
  with tr have tr2: "tr = a @ SVal v # (b @ SExpr e2 # tpost)" by simp
  from prod have "edge h f (SVal v) (SExpr e1)" by simp
  from closed_order_split[OF co tr2 this] have "SExpr e1 \<in> set a" .
  with tpre have "SExpr e1 \<in> set tpre" by simp
  with pre have "e1 \<in> set pre" by (auto simp: set_exprs_of)
  moreover from traverse_impl_distinct[OF ti] es have "distinct es" by simp
  ultimately show ?thesis ..
qed

theorem exprs_topological_order_witness:
  "exprs 100 sorted_list_of_set heap_ts (fusion_ts [6]) True False False
     = Some (Inr ([10, 11] @ 12 # [13])) \<and>
   origin_map (fusion_ts [6]) 4 = Some 11 \<and> 4 \<in> set (inputs (expr_at heap_ts 12)) \<and>
   11 \<in> set [10, 11::nat] \<and> distinct [10, 11, 12, 13::nat]"
proof -
  have res: "exprs 100 sorted_list_of_set heap_ts (fusion_ts [6]) True False False
     = Some (Inr [10, 11, 12, 13])"
    by code_simp
  have prod: "origin_map (fusion_ts [6]) 4 = Some 11"
    by (simp add: fusion_ts_def empty_fusion_def)
  have cons: "4 \<in> set (inputs (expr_at heap_ts 12))"
    by (simp add: heap_ts_def expr_node_def)
  have occ: "[10, 11, 12, 13] = [10, 11] @ 12 # [13::nat]" by simp
  from exprs_topological_order[OF res prod cons occ] res prod cons show ?thesis by simp
qed


section \<open>The order of the kernel parameters\<close>

lemma fold_snoc: "fold (\<lambda>val vs. vs @ [val]) xs acc = acc @ xs"
  by (induction xs arbitrary: acc) auto

lemma print_params_Inr:
  assumes "print_params pr h back vals os = Inr s"
  shows "\<exists>ds. map (param_decl pr h back) vals = map Inr ds \<and> s = os @ concat ds"
  using assms
proof (induction vals arbitrary: os)
  case Nil
  then show ?case by simp
next
  case (Cons val rest)
  from Cons.prems obtain d where d: "param_decl pr h back val = Inr d"
    and r: "print_params pr h back rest (os @ d) = Inr s"
    by (auto split: sum.splits)
  from Cons.IH[OF r] obtain ds where "map (param_decl pr h back) rest = map Inr ds"
    and "s = (os @ d) @ concat ds" by blast
  with d have "map (param_decl pr h back) (val # rest) = map Inr (d # ds) \<and>
               s = os @ concat (d # ds)" by simp
  then show ?case by blast
qed

lemma print_params_ok:
  assumes "\<forall>v \<in> set vals. val_type (val_at h v) = TensorView \<or> val_type (val_at h v) = Scalar"
  shows "\<exists>s. print_params pr h back vals os = Inr s"
  using assms
proof (induction vals arbitrary: os)
  case Nil
  then show ?case by simp
next
  case (Cons val rest)
  then have "\<exists>d. param_decl pr h back val = Inr d"
    by (auto simp: param_decl_def)
  then obtain d where d: "param_decl pr h back val = Inr d" ..
  from Cons.IH[of "os @ d"] Cons.prems d show ?case by simp
qed

lemma list_ex_exprs_reachable:
  assumes "set es = {e. SExpr e \<in> reachable h f outs}"
  shows "list_ex P es \<longleftrightarrow> (\<exists>e. SExpr e \<in> reachable h f outs \<and> P e)"
  using assms by (auto simp: list_ex_iff)

text \<open>The header example is closed and acyclic.\<close>


lemma closed_fusion_hd: "closed_fusion heap_hd fusion_hd"
  unfolding closed_fusion_def
  by (auto simp: fusion_hd_def empty_fusion_def heap_hd_def expr_node_def scalar_node_def
      tv_node_def split: if_splits)

lemma ranked_hd: "ranked heap_hd fusion_hd rank_hd"
  unfolding ranked_def
proof (intro allI impI)
  fix s t assume a: "inFusion heap_hd fusion_hd s \<and> edge heap_hd fusion_hd s t"
  show "rank_hd t < rank_hd s"
  proof (cases s)
    case (SVal v)
    with a show ?thesis
      by (auto simp: fusion_hd_def empty_fusion_def split: if_splits)
  next
    case (SExpr e)
    with a show ?thesis
      by (auto simp: fusion_hd_def empty_fusion_def heap_hd_def expr_node_def split: if_splits)
  qed
qed


text \<open>
  C9. When \<open>printHeader\<close> returns, the text is the kernel name and an opening
  parenthesis, then the declarations of the registered inputs in input-list order
  followed by those of the registered outputs in output-list order, then the seed and
  offset parameters exactly when an expression reachable from the outputs is a
  random-like unary operation, then the work buffer and the synchronisation flags exactly
  when such an expression has an output TensorView with a grid reduction, then the
  closing of the parameter list. It returns, given enough iterations, on a closed acyclic
  Fusion whose inputs and outputs are tensor views and scalars.
\<close>

theorem printHeader_parameter_order:
  assumes it: "\<forall>S. S \<subseteq> set (fusion_outputs f) \<longrightarrow> set (iter S) = S"
  shows "(\<forall>s. printHeader n iter pr h f kernel_name = Some (Inr s) \<longrightarrow>
            (\<exists>ds rest.
               map (param_decl pr h (last (fusion_inputs f @ fusion_outputs f)))
                 (fusion_inputs f @ fusion_outputs f) = map Inr ds \<and>
               s = ''__global__ void '' @ kernel_name @ ''('' @ concat ds
                   @ (if \<exists>e. SExpr e \<in> reachable h f (fusion_outputs f) \<and> is_rand_like h e
                      then '', unsigned long long seed, unsigned long long offset'' else '''')
                   @ (if \<exists>e. SExpr e \<in> reachable h f (fusion_outputs f) \<and> has_grid_output h e
                      then '', void* work_buf, unsigned* sync_flags'' else '''')
                   @ ''){'' @ [CHR 0x0A] @ rest)) \<and>
         (closed_fusion h f \<and> ranked h f rk \<and>
          (\<forall>v \<in> set (fusion_outputs f). inFusion h f (SVal v)) \<and>
          (\<forall>v \<in> set (fusion_inputs f @ fusion_outputs f).
              val_type (val_at h v) = TensorView \<or> val_type (val_at h v) = Scalar) \<longrightarrow>
            (\<exists>m. \<forall>k \<ge> m. \<exists>s. printHeader k iter pr h f kernel_name = Some (Inr s)))"
proof (intro conjI allI impI)
  fix s assume res: "printHeader n iter pr h f kernel_name = Some (Inr s)"
  let ?vals = "fusion_inputs f @ fusion_outputs f"
  let ?os0 = "''__global__ void '' @ kernel_name @ ''(''"
  from res obtain os1 rng grid block where
    pp: "print_params pr h (last ?vals) ?vals ?os0 = Inr os1" and
    rng: "hasRNG n iter h f = Some (Inr rng)" and
    grid: "hasGridReduction n iter h f = Some (Inr grid)" and
    s: "s = os1
           @ (if rng then '', unsigned long long seed, unsigned long long offset'' else '''')
           @ (if grid then '', void* work_buf, unsigned* sync_flags'' else '''')
           @ ''){'' @ [CHR 0x0A]
           @ ((if rng
               then indent pr @ ''int idx = blockIdx.x*blockDim.x + threadIdx.x;''
                    @ [CHR 0x0A] @ indent pr @ ''Philox rnd(seed, idx, offset);'' @ [CHR 0x0A]
               else '''')
              @ (if block \<or> grid
                 then indent pr @ ''__shared__ float shared_mem[1024];'' @ [CHR 0x0A]
                 else ''''))"
    unfolding printHeader_def Let_def fold_snoc
    by (auto split: sum.splits option.splits simp del: append_assoc)
  from rng obtain es where es: "exprs n iter h f True False False = Some (Inr es)"
    and r1: "rng = list_ex (is_rand_like h) es"
    unfolding hasRNG_def
    by (cases "exprs n iter h f True False False") (auto simp: map_sum_def split: sum.splits)
  from grid es have r2: "grid = list_ex (has_grid_output h) es"
    unfolding hasGridReduction_def by simp
  from exprs_from_outputs_set[OF it es]
  have se: "set es = {e. SExpr e \<in> reachable h f (fusion_outputs f)}" .
  from print_params_Inr[OF pp] obtain ds where
    ds: "map (param_decl pr h (last ?vals)) ?vals = map Inr ds" and os1: "os1 = ?os0 @ concat ds"
    by blast
  have "s = ''__global__ void '' @ kernel_name @ ''('' @ concat ds
                   @ (if \<exists>e. SExpr e \<in> reachable h f (fusion_outputs f) \<and> is_rand_like h e
                      then '', unsigned long long seed, unsigned long long offset'' else '''')
                   @ (if \<exists>e. SExpr e \<in> reachable h f (fusion_outputs f) \<and> has_grid_output h e
                      then '', void* work_buf, unsigned* sync_flags'' else '''')
                   @ ''){'' @ [CHR 0x0A]
                   @ ((if rng
               then indent pr @ ''int idx = blockIdx.x*blockDim.x + threadIdx.x;''
                    @ [CHR 0x0A] @ indent pr @ ''Philox rnd(seed, idx, offset);'' @ [CHR 0x0A]
               else '''')
              @ (if block \<or> grid
                 then indent pr @ ''__shared__ float shared_mem[1024];'' @ [CHR 0x0A]
                 else ''''))"
    unfolding s os1 r1 r2 list_ex_exprs_reachable[OF se] by simp
  with ds show "\<exists>ds rest.
               map (param_decl pr h (last ?vals)) ?vals = map Inr ds \<and>
               s = ''__global__ void '' @ kernel_name @ ''('' @ concat ds
                   @ (if \<exists>e. SExpr e \<in> reachable h f (fusion_outputs f) \<and> is_rand_like h e
                      then '', unsigned long long seed, unsigned long long offset'' else '''')
                   @ (if \<exists>e. SExpr e \<in> reachable h f (fusion_outputs f) \<and> has_grid_output h e
                      then '', void* work_buf, unsigned* sync_flags'' else '''')
                   @ ''){'' @ [CHR 0x0A] @ rest"
    by blast
next
  assume a: "closed_fusion h f \<and> ranked h f rk \<and>
          (\<forall>v \<in> set (fusion_outputs f). inFusion h f (SVal v)) \<and>
          (\<forall>v \<in> set (fusion_inputs f @ fusion_outputs f).
              val_type (val_at h v) = TensorView \<or> val_type (val_at h v) = Scalar)"
  let ?vals = "fusion_inputs f @ fusion_outputs f"
  from a print_params_ok[of ?vals h pr "last ?vals" "''__global__ void '' @ kernel_name @ ''(''"]
  obtain os1 where
    pp: "print_params pr h (last ?vals) ?vals (''__global__ void '' @ kernel_name @ ''('') = Inr os1"
    by blast
  from exprs_from_outputs_total[OF it, of h rk False] a
  obtain m where m: "\<forall>k \<ge> m. \<exists>es. exprs k iter h f True False False = Some (Inr es)" by auto
  have "\<exists>s. printHeader k iter pr h f kernel_name = Some (Inr s)" if "m \<le> k" for k
  proof -
    from m that obtain es where "exprs k iter h f True False False = Some (Inr es)" by blast
    with pp show ?thesis
      unfolding printHeader_def Let_def fold_snoc hasRNG_def hasGridReduction_def
        hasBlockReduction_def
      by (simp del: append_assoc)
  qed
  then show "\<exists>m. \<forall>k \<ge> m. \<exists>s. printHeader k iter pr h f kernel_name = Some (Inr s)" by blast
qed

theorem printHeader_parameter_order_witness:
  "printHeader 100 sorted_list_of_set printer_hd heap_hd fusion_hd ''kernel''
     = Some (Inr header_hd) \<and>
   fusion_inputs fusion_hd @ fusion_outputs fusion_hd = [0, 1, 3] \<and>
   (\<exists>ds rest.
      map (param_decl printer_hd heap_hd (last (fusion_inputs fusion_hd @ fusion_outputs fusion_hd)))
        (fusion_inputs fusion_hd @ fusion_outputs fusion_hd) = map Inr ds \<and>
      header_hd = ''__global__ void '' @ ''kernel'' @ ''('' @ concat ds
          @ (if \<exists>e. SExpr e \<in> reachable heap_hd fusion_hd (fusion_outputs fusion_hd)
                     \<and> is_rand_like heap_hd e
             then '', unsigned long long seed, unsigned long long offset'' else '''')
          @ (if \<exists>e. SExpr e \<in> reachable heap_hd fusion_hd (fusion_outputs fusion_hd)
                     \<and> has_grid_output heap_hd e
             then '', void* work_buf, unsigned* sync_flags'' else '''')
          @ ''){'' @ [CHR 0x0A] @ rest) \<and>
   closed_fusion heap_hd fusion_hd \<and> ranked heap_hd fusion_hd rank_hd \<and>
   inFusion heap_hd fusion_hd (SVal 3) \<and>
   map (\<lambda>v. val_type (val_at heap_hd v)) [0, 1, 3] = [TensorView, Scalar, TensorView] \<and>
   (\<exists>m. \<forall>k \<ge> m. \<exists>s. printHeader k sorted_list_of_set printer_hd heap_hd fusion_hd ''kernel''
                          = Some (Inr s))"
proof -
  have it: "\<forall>S. S \<subseteq> set (fusion_outputs fusion_hd) \<longrightarrow> set (sorted_list_of_set S) = S"
  proof (intro allI impI)
    fix S :: "nat set" assume "S \<subseteq> set (fusion_outputs fusion_hd)"
    then have "finite S" by (rule finite_subset) simp
    then show "set (sorted_list_of_set S) = S" by simp
  qed
  note t = printHeader_parameter_order[OF it, of 100 printer_hd heap_hd "''kernel''" rank_hd]
  have run: "printHeader 100 sorted_list_of_set printer_hd heap_hd fusion_hd ''kernel''
     = Some (Inr header_hd)"
    by code_simp
  have io: "fusion_inputs fusion_hd @ fusion_outputs fusion_hd = [0, 1, 3]"
    by (simp add: fusion_hd_def empty_fusion_def)
  note a = t[THEN conjunct1, rule_format, OF run]
  have fr: "\<forall>v \<in> set (fusion_outputs fusion_hd). inFusion heap_hd fusion_hd (SVal v)"
    by (simp add: fusion_hd_def empty_fusion_def heap_hd_def tv_node_def)
  have ty: "\<forall>v \<in> set (fusion_inputs fusion_hd @ fusion_outputs fusion_hd).
      val_type (val_at heap_hd v) = TensorView \<or> val_type (val_at heap_hd v) = Scalar"
    unfolding io by (simp add: heap_hd_def tv_node_def scalar_node_def)
  have b: "\<exists>m. \<forall>k \<ge> m. \<exists>s. printHeader k sorted_list_of_set printer_hd heap_hd fusion_hd ''kernel''
                          = Some (Inr s)"
    by (rule t[THEN conjunct2, rule_format]) (intro conjI closed_fusion_hd ranked_hd fr ty)
  have f3: "inFusion heap_hd fusion_hd (SVal 3)"
    by (simp add: fusion_hd_def empty_fusion_def heap_hd_def tv_node_def)
  have tys: "map (\<lambda>v. val_type (val_at heap_hd v)) [0, 1, 3] = [TensorView, Scalar, TensorView]"
    by (simp add: heap_hd_def tv_node_def scalar_node_def)
  show ?thesis
    by (intro conjI run io a closed_fusion_hd ranked_hd f3 tys b)
qed


end
